theory Spec2Isabelle
  imports Main
begin

section \<open>Python values\<close>

text \<open>
  A Python \<open>str\<close> is a sequence of code points and is modelled as a list of their
  numbers; \<open>len\<close> is \<open>length\<close>. A \<open>bytes\<close> object is a list of numbers below 256.
  Every exception the modelled code can raise is a value of \<open>error\<close>, and a function
  that can raise returns \<open>error + 'a\<close>.
\<close>

type_synonym cp = nat
type_synonym str = "cp list"
type_synonym bytes = "nat list"

datatype error = UnicodeEncodeError | IndexError

abbreviation TAB :: cp where "TAB \<equiv> 9"
abbreviation NL :: cp where "NL \<equiv> 10"
abbreviation CR :: cp where "CR \<equiv> 13"
abbreviation SPACE :: cp where "SPACE \<equiv> 32"
abbreviation REPLACEMENT :: cp where "REPLACEMENT \<equiv> 65533"

text \<open>An ASCII literal of the source, as the list of its code points.\<close>

definition ascii :: "string \<Rightarrow> str" where
  "ascii s = map of_char s"

subsection \<open>Indexing and slicing\<close>

text \<open>
  An index of \<open>xs[i]\<close> or \<open>xs[i] = v\<close> on a sequence of \<open>n\<close> elements: from \<open>-n\<close>
  to \<open>-1\<close> it counts from the end, and outside \<open>-n\<close> to \<open>n - 1\<close> the access raises
  \<open>IndexError\<close>.
\<close>

definition py_index :: "nat \<Rightarrow> int \<Rightarrow> nat option" where
  "py_index n i =
     (if 0 \<le> i \<and> i < int n then Some (nat i)
      else if - int n \<le> i \<and> i < 0 then Some (nat (int n + i))
      else None)"

definition py_getitem :: "'a list \<Rightarrow> int \<Rightarrow> error + 'a" where
  "py_getitem xs i =
     (case py_index (length xs) i of None \<Rightarrow> Inl IndexError | Some k \<Rightarrow> Inr (xs ! k))"

definition py_setitem :: "'a list \<Rightarrow> int \<Rightarrow> 'a \<Rightarrow> error + 'a list" where
  "py_setitem xs i v =
     (case py_index (length xs) i of None \<Rightarrow> Inl IndexError | Some k \<Rightarrow> Inr (xs[k := v]))"

text \<open>
  Slice bounds never raise: a negative bound counts from the end, and the result is
  clamped to the list. \<open>slice_index\<close> is the position a bound denotes.
\<close>

definition slice_index :: "'a list \<Rightarrow> int \<Rightarrow> nat" where
  "slice_index xs i =
     (let n = int (length xs)
      in if i < 0 then nat (max 0 (n + i)) else nat (min n i))"

definition py_slice_to :: "'a list \<Rightarrow> int \<Rightarrow> 'a list" where
  "py_slice_to xs b = take (slice_index xs b) xs"

definition py_slice :: "'a list \<Rightarrow> int \<Rightarrow> int \<Rightarrow> 'a list" where
  "py_slice xs a b = drop (slice_index xs a) (take (slice_index xs b) xs)"

subsection \<open>UTF-8\<close>

text \<open>
  \<open>s.encode("utf-8")\<close>: one to four bytes for each code point; a surrogate
  (U+D800 to U+DFFF) has no encoding and raises \<open>UnicodeEncodeError\<close>. A \<open>str\<close>
  holds no number from \<open>0x110000\<close> upwards; the model rejects one in the same way.
\<close>

definition utf8_encode_char :: "cp \<Rightarrow> error + bytes" where
  "utf8_encode_char c =
     (if c < 0x80 then Inr [c]
      else if c < 0x800 then Inr [0xC0 + c div 64, 0x80 + c mod 64]
      else if 0xD800 \<le> c \<and> c \<le> 0xDFFF then Inl UnicodeEncodeError
      else if c < 0x10000 then
        Inr [0xE0 + c div 4096, 0x80 + (c div 64) mod 64, 0x80 + c mod 64]
      else if c < 0x110000 then
        Inr [0xF0 + c div 262144, 0x80 + (c div 4096) mod 64,
             0x80 + (c div 64) mod 64, 0x80 + c mod 64]
      else Inl UnicodeEncodeError)"

fun utf8_encode :: "str \<Rightarrow> error + bytes" where
  "utf8_encode [] = Inr []"
| "utf8_encode (c # cs) =
     (case utf8_encode_char c of
        Inl e \<Rightarrow> Inl e
      | Inr bs \<Rightarrow> (case utf8_encode cs of Inl e \<Rightarrow> Inl e | Inr r \<Rightarrow> Inr (bs @ r)))"

text \<open>
  \<open>b.decode("utf-8", errors="replace")\<close>. \<open>utf8_decode_step b bs\<close> reads the
  sequence that starts with the byte \<open>b\<close> and continues in \<open>bs\<close>, and returns the
  code point and the number of bytes read. An ill-formed sequence gives U+FFFD for its
  longest prefix that could start a well-formed one (one byte when there is none), and
  a sequence cut off by the end of the input gives one U+FFFD for all that is left.
\<close>

definition is_continuation :: "nat \<Rightarrow> bool" where
  "is_continuation b \<longleftrightarrow> 0x80 \<le> b \<and> b < 0xC0"

definition utf8_decode_step :: "nat \<Rightarrow> bytes \<Rightarrow> cp \<times> nat" where
  "utf8_decode_step b bs =
     (if b < 0x80 then (b, 1)
      else if b < 0xE0 then
        (if b < 0xC2 then (REPLACEMENT, 1)
         else (case bs of
                 [] \<Rightarrow> (REPLACEMENT, 1)
               | b2 # _ \<Rightarrow>
                   if \<not> is_continuation b2 then (REPLACEMENT, 1)
                   else ((b - 0xC0) * 64 + (b2 - 0x80), 2)))
      else if b < 0xF0 then
        (case bs of
           [] \<Rightarrow> (REPLACEMENT, 1)
         | b2 # bs2 \<Rightarrow>
             if \<not> is_continuation b2 \<or> (if b2 < 0xA0 then b = 0xE0 else b = 0xED)
             then (REPLACEMENT, 1)
             else (case bs2 of
                     [] \<Rightarrow> (REPLACEMENT, 2)
                   | b3 # _ \<Rightarrow>
                       if \<not> is_continuation b3 then (REPLACEMENT, 2)
                       else ((b - 0xE0) * 4096 + (b2 - 0x80) * 64 + (b3 - 0x80), 3)))
      else if b < 0xF5 then
        (case bs of
           [] \<Rightarrow> (REPLACEMENT, 1)
         | b2 # bs2 \<Rightarrow>
             if \<not> is_continuation b2 \<or> (if b2 < 0x90 then b = 0xF0 else b = 0xF4)
             then (REPLACEMENT, 1)
             else (case bs2 of
                     [] \<Rightarrow> (REPLACEMENT, 2)
                   | b3 # bs3 \<Rightarrow>
                       if \<not> is_continuation b3 then (REPLACEMENT, 2)
                       else (case bs3 of
                               [] \<Rightarrow> (REPLACEMENT, 3)
                             | b4 # _ \<Rightarrow>
                                 if \<not> is_continuation b4 then (REPLACEMENT, 3)
                                 else ((b - 0xF0) * 262144 + (b2 - 0x80) * 4096
                                         + (b3 - 0x80) * 64 + (b4 - 0x80), 4))))
      else (REPLACEMENT, 1))"

fun utf8_decode :: "bytes \<Rightarrow> str" where
  "utf8_decode [] = []"
| "utf8_decode (b # bs) =
     (case utf8_decode_step b bs of (c, n) \<Rightarrow> c # utf8_decode (drop (n - 1) bs))"

section \<open>Masking (comment_extractor.py)\<close>

record CommentSegment =
  start_byte :: int
  end_byte :: int
  sanitized :: str

record ByteRange =
  range_start_byte :: int
  range_end_byte :: int

text \<open>
  \<open>"".join(" " if c not in "\n\r" else c for c in text)\<close>, the result for an empty
  list of segments.
\<close>

definition mask_everything :: "str \<Rightarrow> str" where
  "mask_everything text = map (\<lambda>c. if c \<noteq> NL \<and> c \<noteq> CR then SPACE else c) text"

text \<open>
  \<open>for i, c in enumerate(masked): if c not in "\n\r": masked[i] = " "\<close>, from index
  \<open>i\<close> on. The loop stores into the list it walks.
\<close>

function mask_loop :: "str \<Rightarrow> nat \<Rightarrow> error + str" where
  "mask_loop masked i =
     (if i < length masked then
        (if masked ! i \<noteq> NL \<and> masked ! i \<noteq> CR then
           (case py_setitem masked (int i) SPACE of
              Inl e \<Rightarrow> Inl e
            | Inr m \<Rightarrow> mask_loop m (i + 1))
         else mask_loop masked (i + 1))
      else Inr masked)"
  by pat_completeness auto
termination
  by (relation "measure (\<lambda>(masked, i). length masked - i)")
     (auto simp: py_setitem_def py_index_def split: if_splits)

declare mask_loop.simps [simp del]

text \<open>
  \<open>for j, c in enumerate(sanitized): if start_char + j < len(masked):
  masked[start_char + j] = c\<close>, with \<open>j\<close> the index of the head of the list.
\<close>

fun copy_sanitized :: "str \<Rightarrow> nat \<Rightarrow> nat \<Rightarrow> str \<Rightarrow> error + str" where
  "copy_sanitized masked start_char j [] = Inr masked"
| "copy_sanitized masked start_char j (c # cs) =
     (if start_char + j < length masked then
        (case py_setitem masked (int (start_char + j)) c of
           Inl e \<Rightarrow> Inl e
         | Inr m \<Rightarrow> copy_sanitized m start_char (j + 1) cs)
      else copy_sanitized masked start_char (j + 1) cs)"

text \<open>The loop over the segments of \<open>mask_text_except_comments\<close>.\<close>

fun restore_comments :: "bytes \<Rightarrow> str \<Rightarrow> CommentSegment list \<Rightarrow> error + str" where
  "restore_comments text_bytes masked [] = Inr masked"
| "restore_comments text_bytes masked (segment # segments) =
     (let start_char = length (utf8_decode (py_slice_to text_bytes (start_byte segment)))
      in case copy_sanitized masked start_char 0 (sanitized segment) of
           Inl e \<Rightarrow> Inl e
         | Inr m \<Rightarrow> restore_comments text_bytes m segments)"

definition mask_text_except_comments ::
  "str \<Rightarrow> str \<Rightarrow> CommentSegment list \<Rightarrow> error + str" where
  "mask_text_except_comments language_id text segments =
     (if segments = [] then Inr (mask_everything text)
      else case mask_loop text 0 of
             Inl e \<Rightarrow> Inl e
           | Inr masked \<Rightarrow>
               (case utf8_encode text of
                  Inl e \<Rightarrow> Inl e
                | Inr text_bytes \<Rightarrow> restore_comments text_bytes masked segments))"

text \<open>
  \<open>for j in range(start_char, min(end_char, len(masked))): masked[j] = text[j]\<close>,
  from \<open>j\<close> on, with \<open>stop\<close> the end of the range.
\<close>

function copy_content :: "str \<Rightarrow> str \<Rightarrow> nat \<Rightarrow> nat \<Rightarrow> error + str" where
  "copy_content text masked j stop =
     (if j < stop then
        (case py_getitem text (int j) of
           Inl e \<Rightarrow> Inl e
         | Inr c \<Rightarrow>
             (case py_setitem masked (int j) c of
                Inl e \<Rightarrow> Inl e
              | Inr m \<Rightarrow> copy_content text m (j + 1) stop))
      else Inr masked)"
  by pat_completeness auto
termination
  by (relation "measure (\<lambda>(text, masked, j, stop). stop - j)") auto

declare copy_content.simps [simp del]

text \<open>The loop over the ranges of \<open>mask_text_except_content\<close>.\<close>

fun restore_content :: "str \<Rightarrow> bytes \<Rightarrow> str \<Rightarrow> ByteRange list \<Rightarrow> error + str" where
  "restore_content text text_bytes masked [] = Inr masked"
| "restore_content text text_bytes masked (byte_range # content_ranges) =
     (let start_char =
            length (utf8_decode (py_slice_to text_bytes (range_start_byte byte_range)));
          end_char =
            length (utf8_decode (py_slice_to text_bytes (range_end_byte byte_range)))
      in case copy_content text masked start_char (min end_char (length masked)) of
           Inl e \<Rightarrow> Inl e
         | Inr m \<Rightarrow> restore_content text text_bytes m content_ranges)"

definition mask_text_except_content ::
  "str \<Rightarrow> str \<Rightarrow> ByteRange list \<Rightarrow> error + str" where
  "mask_text_except_content language_id text content_ranges =
     (if content_ranges = [] then Inr (mask_everything text)
      else case mask_loop text 0 of
             Inl e \<Rightarrow> Inl e
           | Inr masked \<Rightarrow>
               (case utf8_encode text of
                  Inl e \<Rightarrow> Inl e
                | Inr text_bytes \<Rightarrow> restore_content text text_bytes masked content_ranges))"

section \<open>Sanitizing comments (comment_extractor.py)\<close>

abbreviation HASH :: cp where "HASH \<equiv> 35"
abbreviation PERCENT :: cp where "PERCENT \<equiv> 37"
abbreviation STAR :: cp where "STAR \<equiv> 42"
abbreviation SLASH :: cp where "SLASH \<equiv> 47"

text \<open>\<open>c in " \t"\<close> for a single character \<open>c\<close>.\<close>

definition is_ws :: "cp \<Rightarrow> bool" where
  "is_ws c \<longleftrightarrow> c = SPACE \<or> c = TAB"

text \<open>
  \<open>while i < len(result) and p(result[i]): result[i] = " "; i += 1\<close>. The loop
  returns the list and the index it stopped at.
\<close>

function blank_while :: "(cp \<Rightarrow> bool) \<Rightarrow> str \<Rightarrow> nat \<Rightarrow> str \<times> nat" where
  "blank_while p result i =
     (if i < length result \<and> p (result ! i)
      then blank_while p (result[i := SPACE]) (i + 1)
      else (result, i))"
  by pat_completeness auto
termination
  by (relation "measure (\<lambda>(p, result, i). length result - i)") auto

declare blank_while.simps [simp del]

text \<open>\<open>while j >= 0 and result[j] == "*": result[j] = " "; j -= 1\<close>.\<close>

function blank_stars_back :: "str \<Rightarrow> int \<Rightarrow> str" where
  "blank_stars_back result j =
     (if 0 \<le> j \<and> result ! nat j = STAR
      then blank_stars_back (result[nat j := SPACE]) (j - 1)
      else result)"
  by pat_completeness auto
termination
  by (relation "measure (\<lambda>(result, j). nat (j + 1))") auto

declare blank_stars_back.simps [simp del]

text \<open>
  \<open>_sanitize_comment\<close>. Every read and store of the source is at an index its guard
  has checked: \<open>result[0]\<close> and \<open>result[1]\<close> after \<open>len(result) >= 2\<close>, and
  \<open>result[-1]\<close> and \<open>result[-2]\<close>, the last two elements, likewise.
\<close>

definition sanitize_comment :: "str \<Rightarrow> str \<Rightarrow> str" where
  "sanitize_comment text language_id =
     (if text = [] then text
      else if language_id = ascii ''python'' then
        (case blank_while (\<lambda>c. c = HASH) text 0 of
           (result, i) \<Rightarrow> fst (blank_while is_ws result i))
      else if language_id \<in> set (map ascii [''javascript'', ''typescript'', ''c'', ''cpp'',
                                              ''java'', ''go'', ''rust'']) then
        (if 2 \<le> length text \<and> text ! 0 = SLASH \<and> text ! 1 = SLASH then
           (case blank_while (\<lambda>c. c = SLASH) text 0 of
              (result, i) \<Rightarrow> fst (blank_while is_ws result i))
         else if 2 \<le> length text \<and> text ! 0 = SLASH \<and> text ! 1 = STAR then
           (case blank_while (\<lambda>c. c = STAR) (text[0 := SPACE, 1 := SPACE]) 2 of
              (result, i) \<Rightarrow>
                (case blank_while is_ws result i of
                   (result, i) \<Rightarrow>
                     if 2 \<le> length result \<and> result ! (length result - 1) = SLASH
                          \<and> result ! (length result - 2) = STAR
                     then blank_stars_back
                            (result[length result - 1 := SPACE, length result - 2 := SPACE])
                            (int (length result) - 3)
                     else result))
         else text)
      else text)"

text \<open>\<open>_sanitize_latex_comment\<close>.\<close>

definition sanitize_latex_comment :: "str \<Rightarrow> str" where
  "sanitize_latex_comment text =
     (if text = [] then text
      else case blank_while (\<lambda>c. c = PERCENT) (text[0 := SPACE]) 1 of
             (result, idx) \<Rightarrow> fst (blank_while is_ws result idx))"

section \<open>Grammar checking (analyzer.py, grammar_checker.py)\<close>

subsection \<open>Data\<close>

text \<open>
  \<open>Position\<close> and \<open>Range\<close> of \<open>analyzer.py\<close>: a zero-based line and a column in UTF-16
  code units. The fields of \<open>TokenData\<close> and \<open>SentenceBoundary\<close> keep their names but
  for \<open>line\<close>, \<open>start\<close>, \<open>end\<close> and \<open>text\<close>, which are \<open>token_line\<close>,
  \<open>sent_start\<close>, \<open>sent_end\<close> and \<open>sent_text\<close> here.
\<close>

record Position =
  line :: nat
  character :: nat

record Range =
  start_pos :: Position
  end_pos :: Position

record TokenData =
  surface :: str
  feature :: str
  base_form :: str
  reading :: str
  pronunciation :: str
  token_type :: str
  token_modifiers :: int
  token_line :: int
  start_char :: int
  end_char :: int

record SentenceBoundary =
  sent_start :: int
  sent_end :: int
  sentence_id :: int
  sent_text :: str

text \<open>
  The text of a diagnostic's message is fixed by the rule that emits it and the values
  the rule formats into it; the model keeps the rule and those values. \<open>source\<close> is
  always \<open>"mozuku"\<close>. The debug output of the rules goes to the standard error stream
  and is no part of their result.
\<close>

datatype message =
  CommaLimitMessage int int
  | AdversativeGaMessage int int
  | DuplicateParticleMessage str
  | AdjacentParticlesMessage
  | DuplicateConjunctionMessage str
  | RaDroppingMessage

record Diagnostic =
  diag_range :: Range
  severity :: int
  message :: message
  source :: str

definition new_diagnostic :: "Range \<Rightarrow> message \<Rightarrow> Diagnostic" where
  "new_diagnostic r m =
     \<lparr>diag_range = r, severity = 2, message = m, source = ascii ''mozuku''\<rparr>"

subsection \<open>Exceptions and loops\<close>

text \<open>An exception ends the computation: \<open>ebind m f\<close> runs \<open>f\<close> on the value of \<open>m\<close>.\<close>

definition ebind :: "error + 'a \<Rightarrow> ('a \<Rightarrow> error + 'b) \<Rightarrow> error + 'b" where
  "ebind m f = (case m of Inl e \<Rightarrow> Inl e | Inr x \<Rightarrow> f x)"

text \<open>
  \<open>for x in xs: body\<close> and \<open>for i, x in enumerate(xs): body\<close>, where the body maps
  the state of the loop to its next state or raises.
\<close>

fun for_each :: "('a \<Rightarrow> 's \<Rightarrow> error + 's) \<Rightarrow> 'a list \<Rightarrow> 's \<Rightarrow> error + 's" where
  "for_each body [] st = Inr st"
| "for_each body (x # xs) st = ebind (body x st) (for_each body xs)"

fun for_enumerate ::
  "(nat \<Rightarrow> 'a \<Rightarrow> 's \<Rightarrow> error + 's) \<Rightarrow> nat \<Rightarrow> 'a list \<Rightarrow> 's \<Rightarrow> error + 's" where
  "for_enumerate body i [] st = Inr st"
| "for_enumerate body i (x # xs) st = ebind (body i x st) (for_enumerate body (i + 1) xs)"

text \<open>\<open>len(s.encode("utf-8"))\<close>.\<close>

definition byte_length :: "str \<Rightarrow> error + int" where
  "byte_length s = ebind (utf8_encode s) (\<lambda>bs. Inr (int (length bs)))"

subsection \<open>Feature strings\<close>

text \<open>\<open>s.split(sep)\<close> for a separator of one character.\<close>

fun py_split :: "cp \<Rightarrow> str \<Rightarrow> str list" where
  "py_split sep [] = [[]]"
| "py_split sep (c # cs) =
     (if c = sep then [] # py_split sep cs
      else (case py_split sep cs of [] \<Rightarrow> [[c]] | p # ps \<Rightarrow> (c # p) # ps))"

abbreviation COMMA :: cp where "COMMA \<equiv> 44"

text \<open>
  The literals of the rules, in the order of their definitions: joshi (particle),
  setsuzoku-joshi (conjunctive particle), ga, doushi (verb), jiritsu (independent),
  ichidan, mizenkei, setsubi (suffix), reru, koreru, mireru, setsuzokushi (conjunction)
  and the ideographic comma U+3001.
\<close>

definition JOSHI :: str where "JOSHI = [0x52A9, 0x8A5E]"
definition SETSUZOKU_JOSHI :: str where "SETSUZOKU_JOSHI = [0x63A5, 0x7D9A, 0x52A9, 0x8A5E]"
definition GA :: str where "GA = [0x304C]"
definition DOUSHI :: str where "DOUSHI = [0x52D5, 0x8A5E]"
definition JIRITSU :: str where "JIRITSU = [0x81EA, 0x7ACB]"
definition ICHIDAN :: str where "ICHIDAN = [0x4E00, 0x6BB5]"
definition MIZENKEI :: str where "MIZENKEI = [0x672A, 0x7136, 0x5F62]"
definition SETSUBI :: str where "SETSUBI = [0x63A5, 0x5C3E]"
definition RERU :: str where "RERU = [0x308C, 0x308B]"
definition KORERU :: str where "KORERU = [0x6765, 0x308C, 0x308B]"
definition MIRERU :: str where "MIRERU = [0x898B, 0x308C, 0x308B]"
definition SETSUZOKUSHI :: str where "SETSUZOKUSHI = [0x63A5, 0x7D9A, 0x8A5E]"
abbreviation TOUTEN :: cp where "TOUTEN \<equiv> 0x3001"

definition is_adversative_ga :: "str \<Rightarrow> bool" where
  "is_adversative_ga feat =
     (let parts = py_split COMMA feat
      in if length parts < 7 then False
         else parts ! 0 = JOSHI \<and> parts ! 1 = SETSUZOKU_JOSHI \<and> parts ! 6 = GA)"

definition is_particle :: "str \<Rightarrow> bool" where
  "is_particle feat =
     (let parts = py_split COMMA feat
      in if parts = [] then False else parts ! 0 = JOSHI)"

definition particle_key :: "str \<Rightarrow> str" where
  "particle_key feat =
     (let parts = py_split COMMA feat
      in if length parts < 2 then (if parts \<noteq> [] then parts ! 0 else [])
         else parts ! 0 @ [COMMA] @ parts ! 1)"

definition is_conjunction :: "str \<Rightarrow> bool" where
  "is_conjunction feat =
     (let parts = py_split COMMA feat
      in if parts = [] then False else parts ! 0 = SETSUZOKUSHI)"

definition is_target_verb :: "str \<Rightarrow> bool" where
  "is_target_verb feat =
     (let parts = py_split COMMA feat
      in if length parts < 6 then False
         else parts ! 0 = DOUSHI \<and> parts ! 1 = JIRITSU
              \<and> parts ! 4 = ICHIDAN \<and> parts ! 5 = MIZENKEI)"

definition is_ra_word :: "str \<Rightarrow> bool" where
  "is_ra_word feat =
     (let parts = py_split COMMA feat
      in if length parts < 7 then False
         else parts ! 0 = DOUSHI \<and> parts ! 1 = SETSUBI \<and> parts ! 6 = RERU)"

definition is_special_ra_case :: "str \<Rightarrow> bool" where
  "is_special_ra_case feat =
     (let parts = py_split COMMA feat
      in if length parts < 7 then False
         else parts ! 0 = DOUSHI \<and> (parts ! 6 = KORERU \<or> parts ! 6 = MIRERU))"

subsection \<open>Positions\<close>

text \<open>\<open>_compute_line_starts\<close>: 0 and the offset behind each line feed.\<close>

fun line_starts_from :: "nat \<Rightarrow> str \<Rightarrow> int list" where
  "line_starts_from i [] = []"
| "line_starts_from i (c # cs) =
     (if c = NL then int (i + 1) # line_starts_from (i + 1) cs
      else line_starts_from (i + 1) cs)"

definition compute_line_starts :: "str \<Rightarrow> int list" where
  "compute_line_starts text = 0 # line_starts_from 0 text"

definition utf8_to_utf16_length :: "str \<Rightarrow> nat" where
  "utf8_to_utf16_length text = sum_list (map (\<lambda>c. if 0xFFFF < c then 2 else 1) text)"

text \<open>
  The search for the line in \<open>_byte_offset_to_position\<close>:
  \<open>for i, start in enumerate(line_starts): if char_offset < start: break; line = i\<close>,
  with \<open>ln\<close> the value of \<open>line\<close>.
\<close>

fun find_line :: "int \<Rightarrow> nat \<Rightarrow> int list \<Rightarrow> nat \<Rightarrow> nat" where
  "find_line char_offset i [] ln = ln"
| "find_line char_offset i (start # rest) ln =
     (if char_offset < start then ln else find_line char_offset (i + 1) rest i)"

text \<open>\<open>_byte_offset_to_position\<close> of \<open>grammar_checker.py\<close>.\<close>

definition byte_offset_to_position :: "str \<Rightarrow> int list \<Rightarrow> int \<Rightarrow> error + Position" where
  "byte_offset_to_position text line_starts byte_offset =
     ebind (utf8_encode text) (\<lambda>text_bytes.
       let byte_offset = (if int (length text_bytes) \<le> byte_offset
                          then int (length text_bytes) else byte_offset);
           char_offset = length (utf8_decode (py_slice_to text_bytes byte_offset));
           line = find_line (int char_offset) 0 line_starts 0
       in ebind (py_getitem line_starts (int line)) (\<lambda>line_start.
            Inr \<lparr>line = line,
                 character =
                   utf8_to_utf16_length (py_slice text line_start (int char_offset))\<rparr>))"

definition make_range :: "str \<Rightarrow> int list \<Rightarrow> int \<Rightarrow> int \<Rightarrow> error + Range" where
  "make_range text line_starts start_b end_b =
     ebind (byte_offset_to_position text line_starts start_b) (\<lambda>s.
       ebind (byte_offset_to_position text line_starts end_b) (\<lambda>e.
         Inr \<lparr>start_pos = s, end_pos = e\<rparr>))"

definition in_sentence :: "int \<Rightarrow> SentenceBoundary \<Rightarrow> bool" where
  "in_sentence byte_pos sentence \<longleftrightarrow>
     sent_start sentence \<le> byte_pos \<and> byte_pos < sent_end sentence"

subsection \<open>The rules\<close>

text \<open>
  Each rule takes the list of diagnostics and returns it with its own diagnostics
  appended. \<open>text.count(","\<close> with U+3001\<open>)\<close> is the number of such characters.
\<close>

definition count_commas :: "str \<Rightarrow> nat" where
  "count_commas text = length (filter (\<lambda>c. c = TOUTEN) text)"

definition comma_limit_body ::
  "str \<Rightarrow> int list \<Rightarrow> int \<Rightarrow> SentenceBoundary \<Rightarrow> Diagnostic list
     \<Rightarrow> error + Diagnostic list" where
  "comma_limit_body text line_starts limit sentence diagnostics =
     (let comma_count = int (count_commas (sent_text sentence))
      in if comma_count \<le> limit then Inr diagnostics
         else ebind (make_range text line_starts (sent_start sentence) (sent_end sentence))
                (\<lambda>r. Inr (diagnostics
                             @ [new_diagnostic r (CommaLimitMessage limit comma_count)])))"

definition check_comma_limit ::
  "str \<Rightarrow> SentenceBoundary list \<Rightarrow> int list \<Rightarrow> Diagnostic list \<Rightarrow> int
     \<Rightarrow> error + Diagnostic list" where
  "check_comma_limit text sentences line_starts diagnostics limit =
     (if limit \<le> 0 then Inr diagnostics
      else for_each (comma_limit_body text line_starts limit) sentences diagnostics)"

text \<open>The count of adversative \<open>ga\<close> in one sentence, and the rule.\<close>

definition adversative_ga_count_body ::
  "int list \<Rightarrow> SentenceBoundary \<Rightarrow> nat \<Rightarrow> TokenData \<Rightarrow> int \<Rightarrow> error + int" where
  "adversative_ga_count_body token_byte_positions sentence i token count =
     (if \<not> is_adversative_ga (feature token) then Inr count
      else ebind (py_getitem token_byte_positions (int i))
             (\<lambda>byte_pos. if in_sentence byte_pos sentence then Inr (count + 1)
                          else Inr count))"

definition adversative_ga_body ::
  "str \<Rightarrow> TokenData list \<Rightarrow> int list \<Rightarrow> int list \<Rightarrow> int \<Rightarrow> SentenceBoundary
     \<Rightarrow> Diagnostic list \<Rightarrow> error + Diagnostic list" where
  "adversative_ga_body text tokens line_starts token_byte_positions max_count sentence
       diagnostics =
     ebind (for_enumerate (adversative_ga_count_body token_byte_positions sentence)
              0 tokens 0)
       (\<lambda>count.
          if count \<le> max_count then Inr diagnostics
          else ebind (make_range text line_starts (sent_start sentence) (sent_end sentence))
                 (\<lambda>r. Inr (diagnostics
                              @ [new_diagnostic r
                                   (AdversativeGaMessage (max_count + 1) count)])))"

definition check_adversative_ga ::
  "str \<Rightarrow> TokenData list \<Rightarrow> SentenceBoundary list \<Rightarrow> int list \<Rightarrow> int list
     \<Rightarrow> Diagnostic list \<Rightarrow> int \<Rightarrow> error + Diagnostic list" where
  "check_adversative_ga text tokens sentences line_starts token_byte_positions
       diagnostics max_count =
     (if max_count \<le> 0 then Inr diagnostics
      else for_each
             (adversative_ga_body text tokens line_starts token_byte_positions max_count)
             sentences diagnostics)"

text \<open>
  \<open>_check_duplicate_particle_surface\<close>. \<open>dup_state\<close> holds the variables of the loop
  over the tokens of one sentence.
\<close>

record dup_state =
  d_last_surface :: str
  d_last_key :: str
  d_last_start_byte :: int
  d_last_line :: int
  d_streak :: int
  d_has_last :: bool
  d_diagnostics :: "Diagnostic list"

definition duplicate_particle_body ::
  "str \<Rightarrow> int list \<Rightarrow> int list \<Rightarrow> int \<Rightarrow> SentenceBoundary \<Rightarrow> nat \<Rightarrow> TokenData
     \<Rightarrow> dup_state \<Rightarrow> error + dup_state" where
  "duplicate_particle_body text line_starts token_byte_positions max_repeat sentence
       i token st0 =
     ebind (py_getitem token_byte_positions (int i)) (\<lambda>byte_pos.
       if \<not> in_sentence byte_pos sentence then Inr st0
       else if \<not> is_particle (feature token) then Inr st0
       else
         let current_key = particle_key (feature token);
             st1 = (if d_has_last st0 \<and> token_line token \<noteq> d_last_line st0
                    then st0\<lparr>d_streak := 1, d_last_start_byte := byte_pos,
                             d_has_last := False\<rparr>
                    else st0)
         in ebind
              (if d_has_last st1 \<and> surface token = d_last_surface st1
                    \<and> current_key = d_last_key st1
               then
                 (let st2 = st1\<lparr>d_streak := d_streak st1 + 1\<rparr>
                  in if max_repeat < d_streak st2
                     then ebind (byte_length (surface token)) (\<lambda>n.
                            ebind (make_range text line_starts (d_last_start_byte st2)
                                     (byte_pos + n))
                              (\<lambda>r. Inr (st2\<lparr>d_diagnostics := d_diagnostics st2
                                            @ [new_diagnostic r
                                                 (DuplicateParticleMessage
                                                    (surface token))]\<rparr>)))
                     else Inr st2)
               else Inr (st1\<lparr>d_streak := 1, d_last_start_byte := byte_pos\<rparr>))
              (\<lambda>st3. Inr (st3\<lparr>d_last_surface := surface token, d_last_key := current_key,
                               d_last_line := token_line token, d_has_last := True\<rparr>)))"

definition duplicate_particle_sentence ::
  "str \<Rightarrow> TokenData list \<Rightarrow> int list \<Rightarrow> int list \<Rightarrow> int \<Rightarrow> SentenceBoundary
     \<Rightarrow> Diagnostic list \<Rightarrow> error + Diagnostic list" where
  "duplicate_particle_sentence text tokens line_starts token_byte_positions max_repeat
       sentence diagnostics =
     ebind (for_enumerate
              (duplicate_particle_body text line_starts token_byte_positions max_repeat
                 sentence)
              0 tokens
              \<lparr>d_last_surface = [], d_last_key = [], d_last_start_byte = 0,
               d_last_line = - 1, d_streak = 1, d_has_last = False,
               d_diagnostics = diagnostics\<rparr>)
       (\<lambda>st. Inr (d_diagnostics st))"

definition check_duplicate_particle_surface ::
  "str \<Rightarrow> TokenData list \<Rightarrow> SentenceBoundary list \<Rightarrow> int list \<Rightarrow> int list
     \<Rightarrow> Diagnostic list \<Rightarrow> int \<Rightarrow> error + Diagnostic list" where
  "check_duplicate_particle_surface text tokens sentences line_starts
       token_byte_positions diagnostics max_repeat =
     (if max_repeat \<le> 0 then Inr diagnostics
      else for_each
             (duplicate_particle_sentence text tokens line_starts token_byte_positions
                max_repeat)
             sentences diagnostics)"

text \<open>\<open>_check_adjacent_particles\<close>, with the variables of its inner loop.\<close>

record adj_state =
  a_prev_is_particle :: bool
  a_prev_key :: str
  a_prev_token :: "TokenData option"
  a_prev_start_byte :: int
  a_streak :: int
  a_diagnostics :: "Diagnostic list"

definition adjacent_particles_body ::
  "str \<Rightarrow> int list \<Rightarrow> int list \<Rightarrow> int \<Rightarrow> SentenceBoundary \<Rightarrow> nat \<Rightarrow> TokenData
     \<Rightarrow> adj_state \<Rightarrow> error + adj_state" where
  "adjacent_particles_body text line_starts token_byte_positions max_repeat sentence
       i token st0 =
     ebind (py_getitem token_byte_positions (int i)) (\<lambda>byte_pos.
       if \<not> in_sentence byte_pos sentence then Inr st0
       else
         let current_is_particle = is_particle (feature token);
             current_key = particle_key (feature token)
         in ebind
              (if current_is_particle \<and> a_prev_is_particle st0
                    \<and> current_key = a_prev_key st0 \<and> a_prev_token st0 \<noteq> None
               then
                 ebind (byte_length (surface (the (a_prev_token st0)))) (\<lambda>n.
                   let prev_end = a_prev_start_byte st0 + n
                   in if byte_pos = prev_end
                      then
                        (let st1 = st0\<lparr>a_streak := a_streak st0 + 1\<rparr>
                         in if max_repeat < a_streak st1
                            then ebind (byte_length (surface token)) (\<lambda>m.
                                   ebind (make_range text line_starts
                                            (a_prev_start_byte st1) (byte_pos + m))
                                     (\<lambda>r. Inr (st1\<lparr>a_diagnostics := a_diagnostics st1
                                                   @ [new_diagnostic r
                                                        AdjacentParticlesMessage]\<rparr>)))
                            else Inr st1)
                      else Inr st0)
               else
                 (let st1 = st0\<lparr>a_streak := 1\<rparr>
                  in if current_is_particle
                     then Inr (st1\<lparr>a_prev_start_byte := byte_pos\<rparr>)
                     else Inr st1))
              (\<lambda>st2.
                 let st3 = st2\<lparr>a_prev_is_particle := current_is_particle\<rparr>
                 in if current_is_particle
                    then Inr (st3\<lparr>a_prev_token := Some token,
                                   a_prev_start_byte := byte_pos,
                                   a_prev_key := current_key\<rparr>)
                    else Inr st3))"

definition adjacent_particles_sentence ::
  "str \<Rightarrow> TokenData list \<Rightarrow> int list \<Rightarrow> int list \<Rightarrow> int \<Rightarrow> SentenceBoundary
     \<Rightarrow> Diagnostic list \<Rightarrow> error + Diagnostic list" where
  "adjacent_particles_sentence text tokens line_starts token_byte_positions max_repeat
       sentence diagnostics =
     ebind (for_enumerate
              (adjacent_particles_body text line_starts token_byte_positions max_repeat
                 sentence)
              0 tokens
              \<lparr>a_prev_is_particle = False, a_prev_key = [], a_prev_token = None,
               a_prev_start_byte = 0, a_streak = 1, a_diagnostics = diagnostics\<rparr>)
       (\<lambda>st. Inr (a_diagnostics st))"

definition check_adjacent_particles ::
  "str \<Rightarrow> TokenData list \<Rightarrow> SentenceBoundary list \<Rightarrow> int list \<Rightarrow> int list
     \<Rightarrow> Diagnostic list \<Rightarrow> int \<Rightarrow> error + Diagnostic list" where
  "check_adjacent_particles text tokens sentences line_starts token_byte_positions
       diagnostics max_repeat =
     (if max_repeat \<le> 0 then Inr diagnostics
      else for_each
             (adjacent_particles_sentence text tokens line_starts token_byte_positions
                max_repeat)
             sentences diagnostics)"

text \<open>\<open>_check_conjunction_repeats\<close>, with the variables of its loop.\<close>

record conj_state =
  c_last_surface :: str
  c_last_start_byte :: int
  c_last_end_byte :: int
  c_streak :: int
  c_has_last :: bool
  c_diagnostics :: "Diagnostic list"

definition conjunction_repeats_body ::
  "str \<Rightarrow> int list \<Rightarrow> int list \<Rightarrow> int \<Rightarrow> nat \<Rightarrow> TokenData \<Rightarrow> conj_state
     \<Rightarrow> error + conj_state" where
  "conjunction_repeats_body text line_starts token_byte_positions max_repeat i token st0 =
     (if \<not> is_conjunction (feature token) then Inr st0
      else
        ebind (py_getitem token_byte_positions (int i)) (\<lambda>current_start.
          ebind (byte_length (surface token)) (\<lambda>n.
            let current_end = current_start + n
            in ebind
                 (if c_has_last st0
                  then ebind (utf8_encode text) (\<lambda>text_bytes.
                         let text_between =
                               utf8_decode
                                 (py_slice text_bytes (c_last_end_byte st0) current_start)
                         in Inr (NL \<in> set text_between))
                  else Inr False)
                 (\<lambda>separated_by_newline.
                    ebind
                      (if c_has_last st0 \<and> surface token = c_last_surface st0
                            \<and> \<not> separated_by_newline
                       then
                         (let st1 = st0\<lparr>c_streak := c_streak st0 + 1\<rparr>
                          in if max_repeat < c_streak st1
                             then ebind (make_range text line_starts
                                           (c_last_start_byte st1) current_end)
                                    (\<lambda>r. Inr (st1\<lparr>c_diagnostics := c_diagnostics st1
                                                  @ [new_diagnostic r
                                                       (DuplicateConjunctionMessage
                                                          (surface token))]\<rparr>))
                             else Inr st1)
                       else Inr (st0\<lparr>c_streak := 1, c_last_start_byte := current_start\<rparr>))
                      (\<lambda>st2. Inr (st2\<lparr>c_last_surface := surface token,
                                      c_last_start_byte := current_start,
                                      c_last_end_byte := current_end,
                                      c_has_last := True\<rparr>))))))"

definition check_conjunction_repeats ::
  "str \<Rightarrow> TokenData list \<Rightarrow> int list \<Rightarrow> int list \<Rightarrow> Diagnostic list \<Rightarrow> int
     \<Rightarrow> error + Diagnostic list" where
  "check_conjunction_repeats text tokens line_starts token_byte_positions diagnostics
       max_repeat =
     (if max_repeat \<le> 0 then Inr diagnostics
      else ebind (for_enumerate
                    (conjunction_repeats_body text line_starts token_byte_positions
                       max_repeat)
                    0 tokens
                    \<lparr>c_last_surface = [], c_last_start_byte = 0, c_last_end_byte = 0,
                     c_streak = 1, c_has_last = False, c_diagnostics = diagnostics\<rparr>)
             (\<lambda>st. Inr (c_diagnostics st)))"

text \<open>
  \<open>_check_ra_dropping\<close>: the loop over the single tokens, then the loop over the
  pairs of neighbours, whose state is the previous token and the diagnostics.
\<close>

definition ra_special_body ::
  "str \<Rightarrow> int list \<Rightarrow> int list \<Rightarrow> nat \<Rightarrow> TokenData \<Rightarrow> Diagnostic list
     \<Rightarrow> error + Diagnostic list" where
  "ra_special_body text line_starts token_byte_positions i token diagnostics =
     (if is_special_ra_case (feature token)
      then ebind (py_getitem token_byte_positions (int i)) (\<lambda>start_b.
             ebind (byte_length (surface token)) (\<lambda>n.
               ebind (make_range text line_starts start_b (start_b + n))
                 (\<lambda>r. Inr (diagnostics @ [new_diagnostic r RaDroppingMessage]))))
      else Inr diagnostics)"

definition ra_pair_body ::
  "str \<Rightarrow> int list \<Rightarrow> int list \<Rightarrow> nat \<Rightarrow> TokenData
     \<Rightarrow> TokenData option \<times> Diagnostic list
     \<Rightarrow> error + TokenData option \<times> Diagnostic list" where
  "ra_pair_body text line_starts token_byte_positions i token st =
     (case st of (prev_token, diagnostics) \<Rightarrow>
        ebind
          (case prev_token of
             None \<Rightarrow> Inr diagnostics
           | Some prev \<Rightarrow>
               if is_target_verb (feature prev) \<and> is_ra_word (feature token)
               then ebind (py_getitem token_byte_positions (int i - 1)) (\<lambda>start_b.
                      ebind (py_getitem token_byte_positions (int i)) (\<lambda>pos.
                        ebind (byte_length (surface token)) (\<lambda>n.
                          ebind (make_range text line_starts start_b (pos + n))
                            (\<lambda>r. Inr (diagnostics
                                         @ [new_diagnostic r RaDroppingMessage])))))
               else Inr diagnostics)
          (\<lambda>diagnostics'. Inr (Some token, diagnostics')))"

definition check_ra_dropping ::
  "str \<Rightarrow> TokenData list \<Rightarrow> int list \<Rightarrow> int list \<Rightarrow> Diagnostic list
     \<Rightarrow> error + Diagnostic list" where
  "check_ra_dropping text tokens line_starts token_byte_positions diagnostics =
     ebind (for_enumerate (ra_special_body text line_starts token_byte_positions)
              0 tokens diagnostics)
       (\<lambda>diagnostics1.
          ebind (for_enumerate (ra_pair_body text line_starts token_byte_positions)
                   0 tokens (None, diagnostics1))
            (\<lambda>st. Inr (snd st)))"

section \<open>Offsets (server.py)\<close>

text \<open>
  \<open>_position_to_offset\<close>. The position is an LSP position, whose line and character
  are unsigned. \<open>sum_line_lengths lines i n offset\<close> is the loop
  \<open>for i in range(position.line): if i < len(lines): offset += len(lines[i]) + 1\<close>
  with \<open>n\<close> rounds left, and \<open>utf16_walk\<close> the loop over the characters of the line,
  with \<open>utf16_count\<close> and \<open>char_offset\<close> as its last two arguments.
\<close>

fun sum_line_lengths :: "str list \<Rightarrow> nat \<Rightarrow> nat \<Rightarrow> nat \<Rightarrow> nat" where
  "sum_line_lengths lines i 0 offset = offset"
| "sum_line_lengths lines i (Suc n) offset =
     sum_line_lengths lines (i + 1) n
       (if i < length lines then offset + (length (lines ! i) + 1) else offset)"

fun utf16_walk :: "nat \<Rightarrow> str \<Rightarrow> nat \<Rightarrow> nat \<Rightarrow> nat" where
  "utf16_walk target [] utf16_count char_offset = char_offset"
| "utf16_walk target (c # cs) utf16_count char_offset =
     (if target \<le> utf16_count then char_offset
      else utf16_walk target cs
             (if 0xFFFF < c then utf16_count + 2 else utf16_count + 1)
             (char_offset + 1))"

definition position_to_offset :: "str \<Rightarrow> Position \<Rightarrow> nat" where
  "position_to_offset text position =
     (let lines = py_split NL text;
          offset = sum_line_lengths lines 0 (line position) 0
      in if line position < length lines
         then offset + utf16_walk (character position) (lines ! line position) 0 0
         else offset)"

text \<open>
  \<open>_byte_offset_to_position\<close> of \<open>server.py\<close>. \<open>split\<close> returns at least one line,
  so that \<open>len(lines) - 1\<close> is not negative.
\<close>

definition server_byte_offset_to_position :: "str \<Rightarrow> int \<Rightarrow> error + Position" where
  "server_byte_offset_to_position text byte_offset =
     ebind (utf8_encode text) (\<lambda>text_bytes.
       let byte_offset = (if int (length text_bytes) \<le> byte_offset
                          then int (length text_bytes) else byte_offset);
           prefix = utf8_decode (py_slice_to text_bytes byte_offset);
           lines = py_split NL prefix;
           last_line = (if lines \<noteq> [] then last lines else [])
       in Inr \<lparr>line = length lines - 1,
               character = sum_list (map (\<lambda>c. if 0xFFFF < c then 2 else 1) last_line)\<rparr>)"

section \<open>Notions used to state the properties\<close>

text \<open>
  A text is encodable when \<open>encode("utf-8")\<close> accepts it: each element is a Unicode
  scalar value, a code point that is not a surrogate.
\<close>

definition is_scalar_value :: "cp \<Rightarrow> bool" where
  "is_scalar_value c \<longleftrightarrow> c < 0xD800 \<or> (0xDFFF < c \<and> c < 0x110000)"

definition encodable :: "str \<Rightarrow> bool" where
  "encodable s \<longleftrightarrow> list_all is_scalar_value s"

text \<open>
  \<open>overlay masked start cs\<close> writes \<open>cs\<close> over \<open>masked\<close> from index \<open>start\<close> on and
  drops the part of \<open>cs\<close> that would land behind the end of \<open>masked\<close>.
\<close>

definition overlay :: "'a list \<Rightarrow> nat \<Rightarrow> 'a list \<Rightarrow> 'a list" where
  "overlay masked start cs =
     take start masked @ take (length masked - start) cs @ drop (start + length cs) masked"

text \<open>The character offset \<open>mask_text_except_comments\<close> computes for a segment.\<close>

definition segment_start_char :: "bytes \<Rightarrow> CommentSegment \<Rightarrow> nat" where
  "segment_start_char text_bytes segment =
     length (utf8_decode (py_slice_to text_bytes (start_byte segment)))"

text \<open>
  The sentence of the specification's example for the comma limit: sixteen characters,
  four of them the comma U+3001, 48 bytes in UTF-8.
\<close>

definition kore_wa :: str where
  "kore_wa = [0x3053, 0x308C, 0x306F, 0x3001, 0x3068, 0x3066, 0x3082, 0x3001,
              0x826F, 0x3044, 0x3001, 0x672C, 0x3001, 0x3067, 0x3059, 0x3002]"

text \<open>
  \<open>TokenData(surface=..., feature=..., line=...)\<close>: the other fields have the defaults
  of the dataclass. The examples build their tokens with it.
\<close>

definition token_data :: "str \<Rightarrow> str \<Rightarrow> int \<Rightarrow> TokenData" where
  "token_data surf feat ln =
     \<lparr>surface = surf, feature = feat, base_form = [], reading = [], pronunciation = [],
      token_type = ascii ''unknown'', token_modifiers = 0, token_line = ln,
      start_char = 0, end_char = 0\<rparr>"

text \<open>The fields of a feature string joined by commas.\<close>

definition join_fields :: "str list \<Rightarrow> str" where
  "join_fields parts = concat (case parts of [] \<Rightarrow> [] | p # ps \<Rightarrow> p # map ((#) COMMA) ps)"

text \<open>
  The tokens of a sentence, each with its byte position, in the order of the stream:
  those tokens whose byte position lies in the sentence. \<open>i\<close> is the index of the head
  of the list. The particles of a sentence are the particle tokens among them.
\<close>

fun sentence_tokens ::
  "int list \<Rightarrow> SentenceBoundary \<Rightarrow> nat \<Rightarrow> TokenData list \<Rightarrow> (TokenData \<times> int) list" where
  "sentence_tokens token_byte_positions sentence i [] = []"
| "sentence_tokens token_byte_positions sentence i (t # ts) =
     (if i < length token_byte_positions \<and> in_sentence (token_byte_positions ! i) sentence
      then (t, token_byte_positions ! i) # sentence_tokens token_byte_positions sentence (i + 1) ts
      else sentence_tokens token_byte_positions sentence (i + 1) ts)"

definition sentence_particles ::
  "int list \<Rightarrow> SentenceBoundary \<Rightarrow> TokenData list \<Rightarrow> TokenData list" where
  "sentence_particles token_byte_positions sentence tokens =
     filter (\<lambda>t. is_particle (feature t))
       (map fst (sentence_tokens token_byte_positions sentence 0 tokens))"




text \<open>
  The pairs of neighbours of a list, in order. On the tokens with their byte positions,
  a pair matches the ra-dropping rule when its first token is a target verb and its
  second the suffix \<open>reru\<close>. A diagnostic spans a pair when it is the warning of the
  rule and its range is made from the start byte of the first token and the end byte of
  the second, the start byte plus the length of the surface in UTF-8; it spans a token
  when the range is made from the token's own start and end byte.
\<close>

definition neighbours :: "'a list \<Rightarrow> ('a \<times> 'a) list" where
  "neighbours xs = zip xs (tl xs)"







text \<open>
  The specification's \<open>to_offset\<close>: the character offset of \<open>_position_to_offset\<close>,
  turned into a byte offset by encoding the prefix of the text that ends there.
\<close>

definition position_to_byte_offset :: "str \<Rightarrow> Position \<Rightarrow> error + int" where
  "position_to_byte_offset text position =
     byte_length (py_slice_to text (int (position_to_offset text position)))"

text \<open>
  A position lies within range when its line is a line of the text and its character
  is at most the length of that line in UTF-16 code units. It lies on a character
  boundary when it is within range and its character is the UTF-16 length of a prefix
  of the line, that is, not between the two code units of a surrogate pair. A byte
  offset lies on a character boundary when it is the length of the encoding of a prefix
  of the text.
\<close>

definition position_in_range :: "str \<Rightarrow> Position \<Rightarrow> bool" where
  "position_in_range text p \<longleftrightarrow>
     (let lines = py_split NL text
      in line p < length lines
         \<and> character p \<le> utf8_to_utf16_length (lines ! line p))"

definition position_on_boundary :: "str \<Rightarrow> Position \<Rightarrow> bool" where
  "position_on_boundary text p \<longleftrightarrow>
     (let lines = py_split NL text
      in line p < length lines
         \<and> character p
             \<in> set (map (\<lambda>k. utf8_to_utf16_length (take k (lines ! line p)))
                     [0..<Suc (length (lines ! line p))]))"

definition offset_on_boundary :: "str \<Rightarrow> int \<Rightarrow> bool" where
  "offset_on_boundary text b \<longleftrightarrow>
     Inr b \<in> set (map (\<lambda>k. byte_length (take k text)) [0..<Suc (length text)])"

text \<open>The position of the end of a string: its last line and the length of that line.\<close>

definition end_position :: "str \<Rightarrow> Position" where
  "end_position s =
     \<lparr>line = length (py_split NL s) - 1,
      character = utf8_to_utf16_length (last (py_split NL s))\<rparr>"

text \<open>The number of UTF-16 code units of a character.\<close>

abbreviation (input) units :: "cp \<Rightarrow> nat" where
  "units c \<equiv> (if 0xFFFF < c then 2 else 1)"

section \<open>Properties of the Python values\<close>

lemma py_setitem_in_range:
  "i < length xs \<Longrightarrow> py_setitem xs (int i) v = Inr (xs[i := v])"
  by (simp add: py_setitem_def py_index_def)

lemma py_getitem_in_range:
  "i < length xs \<Longrightarrow> py_getitem xs (int i) = Inr (xs ! i)"
  by (simp add: py_getitem_def py_index_def)

section \<open>Properties of masking\<close>

lemma mask_loop_length:
  "\<exists>m. mask_loop masked i = Inr m \<and> length m = length masked"
proof (induction masked i rule: mask_loop.induct)
  case (1 masked i)
  show ?case
  proof (cases "i < length masked")
    case False
    then show ?thesis by (subst mask_loop.simps) simp
  next
    case True
    show ?thesis
    proof (cases "masked ! i \<noteq> NL \<and> masked ! i \<noteq> CR")
      case False
      with True "1.IH"(2) show ?thesis by (subst mask_loop.simps) auto
    next
      case blank: True
      have st: "py_setitem masked (int i) SPACE = Inr (masked[i := SPACE])"
        using True by (rule py_setitem_in_range)
      from "1.IH"(1) [OF True blank st]
      obtain m where "mask_loop (masked[i := SPACE]) (i + 1) = Inr m"
        and "length m = length masked" by auto
      with True blank st show ?thesis by (subst mask_loop.simps) simp
    qed
  qed
qed

lemma copy_sanitized_length:
  "\<exists>m. copy_sanitized masked start j cs = Inr m \<and> length m = length masked"
proof (induction cs arbitrary: masked j)
  case Nil
  show ?case by simp
next
  case (Cons c cs)
  show ?case
  proof (cases "start + j < length masked")
    case False
    with Cons [of masked "j + 1"] show ?thesis by simp
  next
    case True
    then have st: "py_setitem masked (int (start + j)) c = Inr (masked[start + j := c])"
      by (rule py_setitem_in_range)
    from Cons [of "masked[start + j := c]" "j + 1"] True st show ?thesis by simp
  qed
qed

lemma restore_comments_length:
  "\<exists>m. restore_comments text_bytes masked segments = Inr m \<and> length m = length masked"
proof (induction segments arbitrary: masked)
  case Nil
  show ?case by simp
next
  case (Cons segment segments)
  obtain m where m: "copy_sanitized masked
      (length (utf8_decode (py_slice_to text_bytes (start_byte segment)))) 0
      (sanitized segment) = Inr m" "length m = length masked"
    using copy_sanitized_length by blast
  from Cons [of m] m show ?case by (simp add: Let_def)
qed

lemma copy_content_length:
  "stop \<le> length masked \<Longrightarrow> length masked = length text \<Longrightarrow>
   \<exists>m. copy_content text masked j stop = Inr m \<and> length m = length masked"
proof (induction "text" masked j stop rule: copy_content.induct)
  case (1 tx masked j stop)
  show ?case
  proof (cases "j < stop")
    case False
    then show ?thesis by (subst copy_content.simps) simp
  next
    case True
    with "1.prems" have j: "j < length tx" "j < length masked" by simp_all
    have g: "py_getitem tx (int j) = Inr (tx ! j)"
      using j(1) by (rule py_getitem_in_range)
    have st: "py_setitem masked (int j) (tx ! j) = Inr (masked[j := tx ! j])"
      using j(2) by (rule py_setitem_in_range)
    from "1.IH" [OF True g st] "1.prems"
    obtain m where "copy_content tx (masked[j := tx ! j]) (j + 1) stop = Inr m"
      and "length m = length masked" by auto
    with True g st show ?thesis by (subst copy_content.simps) simp
  qed
qed

lemma restore_content_length:
  "length masked = length text \<Longrightarrow>
   \<exists>m. restore_content text text_bytes masked content_ranges = Inr m
       \<and> length m = length masked"
proof (induction content_ranges arbitrary: masked)
  case Nil
  show ?case by simp
next
  case (Cons byte_range content_ranges)
  let ?s = "length (utf8_decode (py_slice_to text_bytes (range_start_byte byte_range)))"
  let ?e = "length (utf8_decode (py_slice_to text_bytes (range_end_byte byte_range)))"
  obtain m where m: "copy_content text masked ?s (min ?e (length masked)) = Inr m"
      "length m = length masked"
    using copy_content_length [of "min ?e (length masked)" masked "text" "?s"] Cons.prems
    by auto
  from Cons.IH [of m] m Cons.prems show ?case by (simp add: Let_def)
qed

lemma mask_loop_eq:
  "mask_loop masked i = Inr (take i masked @ mask_everything (drop i masked))"
proof (induction masked i rule: mask_loop.induct)
  case (1 masked i)
  show ?case
  proof (cases "i < length masked")
    case False
    then show ?thesis by (subst mask_loop.simps) (simp add: mask_everything_def)
  next
    case True
    then have split: "drop i masked = masked ! i # drop (Suc i) masked"
      by (simp add: Cons_nth_drop_Suc)
    have tk: "\<And>xs. i < length xs \<Longrightarrow> take (Suc i) xs = take i xs @ [xs ! i]"
      by (simp add: take_Suc_conv_app_nth)
    show ?thesis
    proof (cases "masked ! i \<noteq> NL \<and> masked ! i \<noteq> CR")
      case False
      from "1.IH"(2) [OF True False] True False show ?thesis
        by (subst mask_loop.simps) (auto simp: split tk mask_everything_def)
    next
      case blank: True
      have st: "py_setitem masked (int i) SPACE = Inr (masked[i := SPACE])"
        using True by (rule py_setitem_in_range)
      from "1.IH"(1) [OF True blank st] True blank st show ?thesis
        by (subst mask_loop.simps)
           (simp add: split tk mask_everything_def drop_update_cancel)
    qed
  qed
qed

lemma copy_sanitized_eq:
  "copy_sanitized masked start j cs = Inr (overlay masked (start + j) cs)"
proof (induction cs arbitrary: masked j)
  case Nil
  show ?case by (simp add: overlay_def)
next
  case (Cons c cs)
  show ?case
  proof (cases "start + j < length masked")
    case False
    with Cons [of masked "j + 1"] show ?thesis by (simp add: overlay_def)
  next
    case True
    then have st: "py_setitem masked (int (start + j)) c = Inr (masked[start + j := c])"
      by (rule py_setitem_in_range)
    have "overlay (masked[start + j := c]) (start + (j + 1)) cs
            = overlay masked (start + j) (c # cs)"
    proof -
      have a: "take (Suc (start + j)) (masked[start + j := c])
                 = take (start + j) masked @ [c]"
        using True by (simp add: take_Suc_conv_app_nth)
      have b: "take (length masked - (start + j)) (c # cs)
                 = c # take (length masked - Suc (start + j)) cs"
      proof -
        from True obtain k where k: "length masked - (start + j) = Suc k"
          by (cases "length masked - (start + j)") simp_all
        then have "length masked - Suc (start + j) = k" by simp
        with k show ?thesis by simp
      qed
      show ?thesis
        using True by (simp add: overlay_def a b drop_update_cancel)
    qed
    with Cons [of "masked[start + j := c]" "j + 1"] True st show ?thesis by simp
  qed
qed

lemma length_overlay: "length (overlay masked start cs) = length masked"
  by (simp add: overlay_def)

lemma restore_comments_eq:
  "restore_comments text_bytes masked segments
     = Inr (foldl (\<lambda>m seg. overlay m (segment_start_char text_bytes seg) (sanitized seg))
              masked segments)"
proof (induction segments arbitrary: masked)
  case Nil
  show ?case by simp
next
  case (Cons segment segments)
  show ?case
    using copy_sanitized_eq [of masked "segment_start_char text_bytes segment" 0
        "sanitized segment"] Cons.IH
    by (simp add: Let_def segment_start_char_def)
qed

lemma length_foldl_overlay:
  "length (foldl (\<lambda>m seg. overlay m (f seg) (g seg)) masked segments) = length masked"
  by (induction segments arbitrary: masked) (simp_all add: length_overlay)

lemma utf8_encode_char_error:
  "utf8_encode_char c = Inl e \<Longrightarrow> e = UnicodeEncodeError"
  by (auto simp: utf8_encode_char_def split: if_splits)

lemma utf8_encode_error: "utf8_encode s = Inl e \<Longrightarrow> e = UnicodeEncodeError"
  by (induction s) (auto split: sum.splits dest: utf8_encode_char_error)

lemma utf8_encode_char_scalar:
  "is_scalar_value c \<Longrightarrow> \<exists>bs. utf8_encode_char c = Inr bs"
  by (auto simp: utf8_encode_char_def is_scalar_value_def)

lemma utf8_encode_encodable: "encodable s \<Longrightarrow> \<exists>bs. utf8_encode s = Inr bs"
proof (induction s)
  case Nil
  show ?case by simp
next
  case (Cons c cs)
  then obtain bs r where "utf8_encode_char c = Inr bs" "utf8_encode cs = Inr r"
    using utf8_encode_char_scalar [of c] by (auto simp: encodable_def)
  then show ?case by simp
qed

lemma length_mask_everything: "length (mask_everything s) = length s"
  by (simp add: mask_everything_def)

lemma mask_text_except_comments_eq:
  assumes "utf8_encode text = Inr text_bytes" and "segments \<noteq> []"
  shows "mask_text_except_comments language_id text segments
           = Inr (foldl (\<lambda>m seg. overlay m (segment_start_char text_bytes seg) (sanitized seg))
                    (mask_everything text) segments)"
  using assms
  by (simp add: mask_text_except_comments_def mask_loop_eq restore_comments_eq)

lemma mask_text_except_content_length:
  assumes "utf8_encode text = Inr text_bytes"
  shows "\<exists>r. mask_text_except_content language_id text content_ranges = Inr r
             \<and> length r = length text"
proof (cases "content_ranges = []")
  case True
  then show ?thesis
    by (simp add: mask_text_except_content_def length_mask_everything)
next
  case False
  obtain m where "restore_content text text_bytes (mask_everything text) content_ranges = Inr m"
    and "length m = length (mask_everything text)"
    using restore_content_length [of "mask_everything text" "text"]
    by (auto simp: length_mask_everything)
  with False assms show ?thesis
    by (simp add: mask_text_except_content_def mask_loop_eq length_mask_everything)
qed

section \<open>The claims about masking\<close>

text \<open>
  C1. Masking keeps the length in characters: for every text that has a UTF-8 encoding
  and every list of comment segments or of content byte ranges,
  \<open>mask_text_except_comments\<close> and \<open>mask_text_except_content\<close> return a string as long
  as the text. With an empty list the text is not encoded at all, and the same holds
  for every string.
\<close>

theorem mask_length_invariance:
  "((encodable text \<or> segments = []) \<longrightarrow>
      (\<exists>r. mask_text_except_comments language_id text segments = Inr r
           \<and> length r = length text))
   \<and> ((encodable text \<or> content_ranges = []) \<longrightarrow>
      (\<exists>r. mask_text_except_content language_id text content_ranges = Inr r
           \<and> length r = length text))"
proof (intro conjI impI)
  assume h: "encodable text \<or> segments = []"
  show "\<exists>r. mask_text_except_comments language_id text segments = Inr r
            \<and> length r = length text"
  proof (cases "segments = []")
    case True
    then show ?thesis
      by (simp add: mask_text_except_comments_def length_mask_everything)
  next
    case False
    with h obtain text_bytes where "utf8_encode text = Inr text_bytes"
      using utf8_encode_encodable by blast
    from mask_text_except_comments_eq [OF this False] show ?thesis
      by (simp add: length_foldl_overlay length_mask_everything)
  qed
next
  assume h: "encodable text \<or> content_ranges = []"
  show "\<exists>r. mask_text_except_content language_id text content_ranges = Inr r
            \<and> length r = length text"
  proof (cases "content_ranges = []")
    case True
    then show ?thesis
      by (simp add: mask_text_except_content_def length_mask_everything)
  next
    case False
    with h obtain text_bytes where "utf8_encode text = Inr text_bytes"
      using utf8_encode_encodable by blast
    then show ?thesis by (rule mask_text_except_content_length)
  qed
qed

text \<open>
  The Python source \<open>x # \<close>U+3042, a line break, \<open>y\<close>: its comment is the bytes 2 to 7,
  and the text content of the same seven characters taken as bytes 0 to 1.
\<close>

theorem mask_length_invariance_witness:
  "(encodable [120, 32, 35, 32, 12354, 10, 121]
      \<or> [\<lparr>start_byte = 2, end_byte = 7, sanitized = [32, 32, 12354]\<rparr>] = [])
   \<and> (\<exists>r. mask_text_except_comments (ascii ''python'') [120, 32, 35, 32, 12354, 10, 121]
             [\<lparr>start_byte = 2, end_byte = 7, sanitized = [32, 32, 12354]\<rparr>] = Inr r
          \<and> length r = length [120, 32, 35, 32, 12354, 10, 121 :: nat])
   \<and> (encodable [120, 32, 35, 32, 12354, 10, 121]
      \<or> [\<lparr>range_start_byte = 0, range_end_byte = 1\<rparr>] = [])
   \<and> (\<exists>r. mask_text_except_content (ascii ''python'') [120, 32, 35, 32, 12354, 10, 121]
             [\<lparr>range_start_byte = 0, range_end_byte = 1\<rparr>] = Inr r
          \<and> length r = length [120, 32, 35, 32, 12354, 10, 121 :: nat])"
  using mask_length_invariance [of "[120, 32, 35, 32, 12354, 10, 121]"
      "[\<lparr>start_byte = 2, end_byte = 7, sanitized = [32, 32, 12354]\<rparr>]"
      "ascii ''python''" "[\<lparr>range_start_byte = 0, range_end_byte = 1\<rparr>]"]
  by (simp add: encodable_def is_scalar_value_def)

text \<open>
  C10. \<open>mask_text_except_comments\<close> never raises \<open>IndexError\<close>, whatever the segments
  are. For a text that has a UTF-8 encoding it returns, and the result is the blanked
  text with the sanitized text of each segment laid over it in turn (\<open>overlay\<close>), the
  characters that would land behind the end being dropped; the result is as long as
  the text.
\<close>

theorem mask_text_except_comments_total:
  "mask_text_except_comments language_id text segments \<noteq> Inl IndexError
   \<and> (encodable text \<longrightarrow>
        (\<exists>text_bytes r.
           utf8_encode text = Inr text_bytes
           \<and> mask_text_except_comments language_id text segments = Inr r
           \<and> r = foldl (\<lambda>m seg. overlay m (segment_start_char text_bytes seg) (sanitized seg))
                   (mask_everything text) segments
           \<and> length r = length text))"
proof (intro conjI impI)
  show "mask_text_except_comments language_id text segments \<noteq> Inl IndexError"
  proof (cases "utf8_encode text")
    case (Inl e)
    then have "e = UnicodeEncodeError" by (rule utf8_encode_error)
    with Inl show ?thesis
      by (simp add: mask_text_except_comments_def mask_loop_eq)
  next
    case (Inr text_bytes)
    then show ?thesis
      by (simp add: mask_text_except_comments_def mask_loop_eq restore_comments_eq)
  qed
next
  assume "encodable text"
  then obtain text_bytes where enc: "utf8_encode text = Inr text_bytes"
    using utf8_encode_encodable by blast
  show "\<exists>text_bytes r.
           utf8_encode text = Inr text_bytes
           \<and> mask_text_except_comments language_id text segments = Inr r
           \<and> r = foldl (\<lambda>m seg. overlay m (segment_start_char text_bytes seg) (sanitized seg))
                   (mask_everything text) segments
           \<and> length r = length text"
  proof (cases "segments = []")
    case True
    with enc show ?thesis
      by (simp add: mask_text_except_comments_def length_mask_everything)
  next
    case False
    from mask_text_except_comments_eq [OF enc False] enc show ?thesis
      by (simp add: length_foldl_overlay length_mask_everything)
  qed
qed

text \<open>
  The text \<open>ab\<close> with a segment at byte 1 whose sanitized text is \<open>xyz\<close>, and a segment
  at byte 100: \<open>x\<close> is written, \<open>y\<close> and \<open>z\<close> are dropped, and the second segment
  writes nothing.
\<close>

theorem mask_text_except_comments_total_witness:
  "encodable [97, 98]
   \<and> mask_text_except_comments (ascii ''python'') [97, 98]
        [\<lparr>start_byte = 1, end_byte = 9, sanitized = [120, 121, 122]\<rparr>,
         \<lparr>start_byte = 100, end_byte = 101, sanitized = [119]\<rparr>] = Inr [32, 120]
   \<and> mask_text_except_comments (ascii ''python'') [97, 98]
        [\<lparr>start_byte = 1, end_byte = 9, sanitized = [120, 121, 122]\<rparr>,
         \<lparr>start_byte = 100, end_byte = 101, sanitized = [119]\<rparr>] \<noteq> Inl IndexError"
  using mask_text_except_comments_total [of "ascii ''python''" "[97, 98]"
      "[\<lparr>start_byte = 1, end_byte = 9, sanitized = [120, 121, 122]\<rparr>,
        \<lparr>start_byte = 100, end_byte = 101, sanitized = [119]\<rparr>]"]
  by (simp add: encodable_def is_scalar_value_def utf8_encode_char_def
      segment_start_char_def py_slice_to_def slice_index_def utf8_decode_step_def
      overlay_def mask_everything_def)

section \<open>Properties of sanitizing\<close>

lemma blank_while_eq:
  "blank_while p r i =
     (take i r @ replicate (length (takeWhile p (drop i r))) SPACE @ dropWhile p (drop i r),
      i + length (takeWhile p (drop i r)))"
proof (induction p r i rule: blank_while.induct)
  case (1 p r i)
  show ?case
  proof (cases "i < length r \<and> p (r ! i)")
    case False
    show ?thesis
    proof (cases "i < length r")
      case True
      with False have np: "\<not> p (r ! i)" by simp
      with True have "takeWhile p (drop i r) = []" "dropWhile p (drop i r) = drop i r"
        by (simp_all add: Cons_nth_drop_Suc [symmetric])
      with np show ?thesis by (subst blank_while.simps) simp
    next
      case False
      then show ?thesis by (subst blank_while.simps) simp
    qed
  next
    case True
    then have d: "drop i r = r ! i # drop (Suc i) r"
      by (simp add: Cons_nth_drop_Suc)
    have t: "take (Suc i) (r[i := SPACE]) = take i r @ [SPACE]"
      using True by (simp add: take_Suc_conv_app_nth)
    from "1.IH" [OF True] True show ?thesis
      by (subst blank_while.simps) (simp add: d t drop_update_cancel)
  qed
qed


lemma blank_while_stop:
  "i \<ge> length r \<or> \<not> p (r ! i) \<Longrightarrow> blank_while p r i = (r, i)"
  by (subst blank_while.simps) auto

lemma blank_while_spaces:
  assumes "p SPACE" and "rest = [] \<or> \<not> p (hd rest)" and "i \<le> n"
  shows "blank_while p (replicate n SPACE @ rest) i = (replicate n SPACE @ rest, n)"
proof -
  have d: "drop i (replicate n SPACE @ rest) = replicate (n - i) SPACE @ rest"
    using assms(3) by simp
  have tw: "takeWhile p (replicate (n - i) SPACE @ rest) = replicate (n - i) SPACE"
    using assms(1,2) by (cases rest) (auto simp: takeWhile_append2 takeWhile_append)
  have dw: "dropWhile p (replicate (n - i) SPACE @ rest) = rest"
    using assms(1,2) by (cases rest) (auto simp: dropWhile_append)
  have "take i (replicate n SPACE) @ replicate (n - i) SPACE = replicate n (SPACE::nat)"
    using assms(3) by (simp add: replicate_add [symmetric] min_def)
  with assms(3) show ?thesis
    by (simp add: blank_while_eq d tw dw)
qed


lemma blank_while_length: "length (fst (blank_while p r i)) = length r"
  by (induction p r i rule: blank_while.induct) (subst blank_while.simps, simp)

lemma blank_while_keeps_space:
  "r ! k = SPACE \<Longrightarrow> fst (blank_while p r i) ! k = SPACE"
proof (induction p r i rule: blank_while.induct)
  case (1 p r i)
  show ?case
  proof (cases "i < length r \<and> p (r ! i)")
    case False
    with "1.prems" show ?thesis by (subst blank_while.simps) auto
  next
    case True
    have "r[i := SPACE] ! k = SPACE"
      using "1.prems" True by (cases "k = i") simp_all
    from "1.IH" [OF True this] True show ?thesis
      by (subst blank_while.simps) simp
  qed
qed

lemma blank_stars_back_length: "length (blank_stars_back r j) = length r"
  by (induction r j rule: blank_stars_back.induct) (subst blank_stars_back.simps, simp)

lemma blank_stars_back_keeps_space:
  "r ! k = SPACE \<Longrightarrow> blank_stars_back r j ! k = SPACE"
proof (induction r j rule: blank_stars_back.induct)
  case (1 r j)
  show ?case
  proof (cases "0 \<le> j \<and> r ! nat j = STAR")
    case False
    with "1.prems" show ?thesis by (subst blank_stars_back.simps) auto
  next
    case True
    with "1.prems" have "k \<noteq> nat j" by auto
    then have "r[nat j := SPACE] ! k = SPACE"
      using "1.prems" by simp
    from "1.IH" [OF True this] True show ?thesis
      by (subst blank_stars_back.simps) simp
  qed
qed

lemma two_loops:
  assumes "take i r = replicate i SPACE" and "i \<le> length r"
  shows "\<exists>n rest.
           (case blank_while p r i of (r1, i1) \<Rightarrow> fst (blank_while is_ws r1 i1))
             = replicate n SPACE @ rest
           \<and> i \<le> n \<and> (rest = [] \<or> \<not> is_ws (hd rest))
           \<and> (n = i \<longrightarrow> rest = drop i r \<and> (i < length r \<longrightarrow> \<not> p (r ! i)))"
proof -
  let ?k1 = "length (takeWhile p (drop i r))"
  let ?D1 = "dropWhile p (drop i r)"
  let ?r1 = "replicate (i + ?k1) SPACE @ ?D1"
  let ?k2 = "length (takeWhile is_ws ?D1)"
  let ?rest = "dropWhile is_ws ?D1"
  have r1: "blank_while p r i = (?r1, i + ?k1)"
    using assms(1) by (simp add: blank_while_eq replicate_add)
  have r2: "fst (blank_while is_ws ?r1 (i + ?k1)) = replicate (i + ?k1 + ?k2) SPACE @ ?rest"
    by (simp add: blank_while_eq replicate_add)
  have hd: "?rest = [] \<or> \<not> is_ws (hd ?rest)"
    using hd_dropWhile [of is_ws ?D1] by blast
  have stay: "i + ?k1 + ?k2 = i \<longrightarrow> ?rest = drop i r \<and> (i < length r \<longrightarrow> \<not> p (r ! i))"
  proof
    assume "i + ?k1 + ?k2 = i"
    then have k1: "takeWhile p (drop i r) = []" and k2: "takeWhile is_ws ?D1 = []"
      by simp_all
    from k1 have D1: "?D1 = drop i r"
      using takeWhile_dropWhile_id [of p "drop i r"] by simp
    from k2 have "?rest = ?D1"
      using takeWhile_dropWhile_id [of is_ws ?D1] by simp
    moreover have "i < length r \<longrightarrow> \<not> p (r ! i)"
    proof
      assume "i < length r"
      then have "drop i r = r ! i # drop (Suc i) r" by (simp add: Cons_nth_drop_Suc)
      with k1 show "\<not> p (r ! i)" by (auto split: if_splits)
    qed
    ultimately show "?rest = drop i r \<and> (i < length r \<longrightarrow> \<not> p (r ! i))"
      using D1 by simp
  qed
  show ?thesis
    apply (rule exI [of _ "i + ?k1 + ?k2"], rule exI [of _ ?rest])
    using r1 r2 hd stay by simp
qed


lemma nth_update_same_value: "xs ! k = v \<Longrightarrow> xs[j := v] ! k = v"
  by (cases "j < length xs") (auto simp: nth_list_update list_update_beyond)

lemma two_loops_idem:
  assumes pre: "take i r = replicate i SPACE" and le: "i \<le> length r"
    and np: "\<not> p SPACE"
    and r': "r' = (case blank_while p r i of (r1, i1) \<Rightarrow> fst (blank_while is_ws r1 i1))"
  shows "(case blank_while p r' i of (r1, i1) \<Rightarrow> fst (blank_while is_ws r1 i1)) = r'"
proof -
  from two_loops [OF pre le, of p] r'
  obtain n rest where eq: "r' = replicate n SPACE @ rest" and n: "i \<le> n"
    and rest: "rest = [] \<or> \<not> is_ws (hd rest)"
    and stay: "n = i \<longrightarrow> rest = drop i r \<and> (i < length r \<longrightarrow> \<not> p (r ! i))"
    by auto
  have "length r' \<le> i \<or> \<not> p (r' ! i)"
  proof (cases "i < n")
    case True
    then have "r' ! i = SPACE" by (simp add: eq nth_append)
    with np show ?thesis by simp
  next
    case False
    with n have ni: "n = i" by simp
    show ?thesis
    proof (cases "i < length r")
      case True
      with stay ni have "rest = drop i r" "\<not> p (r ! i)" by simp_all
      moreover from True have "drop i r ! 0 = r ! i" by simp
      ultimately have "\<not> p (r' ! i)" by (simp add: eq ni nth_append)
      then show ?thesis by simp
    next
      case False
      with stay ni have "rest = []" by simp
      then show ?thesis by (simp add: eq ni)
    qed
  qed
  then have "blank_while p r' i = (r', i)"
    by (intro blank_while_stop) auto
  moreover have "blank_while is_ws r' i = (r', n)"
    unfolding eq using rest n by (intro blank_while_spaces) (simp_all add: is_ws_def)
  ultimately show ?thesis by simp
qed

lemma blank_while_first:
  "r \<noteq> [] \<Longrightarrow> p (r ! 0) \<Longrightarrow> fst (blank_while p r 0) ! 0 = SPACE"
  by (subst blank_while.simps) (simp add: blank_while_keeps_space)

lemma sanitize_comment_python_idem:
  assumes "r' = sanitize_comment text (ascii ''python'')"
  shows "sanitize_comment r' (ascii ''python'') = r'"
proof (cases "text = []")
  case True
  with assms show ?thesis by (simp add: sanitize_comment_def)
next
  case False
  with assms have r': "r' = (case blank_while (\<lambda>c. c = HASH) text 0 of
      (r1, i1) \<Rightarrow> fst (blank_while is_ws r1 i1))"
    by (simp add: sanitize_comment_def)
  have "(case blank_while (\<lambda>c. c = HASH) r' 0 of
      (r1, i1) \<Rightarrow> fst (blank_while is_ws r1 i1)) = r'"
    by (rule two_loops_idem [OF _ _ _ r']) simp_all
  then show ?thesis by (simp add: sanitize_comment_def)
qed

lemma sanitize_comment_shape:
  "sanitize_comment text l = text
   \<or> l = ascii ''python''
   \<or> (sanitize_comment text l \<noteq> [] \<and> sanitize_comment text l ! 0 = SPACE)"
proof (cases "sanitize_comment text l = text \<or> l = ascii ''python''")
  case True
  then show ?thesis by blast
next
  case False
  then have ne: "text \<noteq> []" and len: "2 \<le> length text" and s0: "text ! 0 = SLASH"
    and s1: "text ! 1 = SLASH \<or> text ! 1 = STAR"
    by (auto simp: sanitize_comment_def split: if_splits)
  have js: "l \<in> set (map ascii [''javascript'', ''typescript'', ''c'', ''cpp'',
                                   ''java'', ''go'', ''rust''])"
    using False by (auto simp: sanitize_comment_def split: if_splits)
  have py: "l \<noteq> ascii ''python''" using False by simp
  show ?thesis
  proof (cases "text ! 1 = SLASH")
    case True
    obtain r1 i1 where b1: "blank_while (\<lambda>c. c = SLASH) text 0 = (r1, i1)"
      by (cases "blank_while (\<lambda>c. c = SLASH) text 0")
    have "r1 ! 0 = SPACE"
      using blank_while_first [of "text" "\<lambda>c. c = SLASH"] ne s0 b1 by simp
    then have "fst (blank_while is_ws r1 i1) ! 0 = SPACE"
      by (rule blank_while_keeps_space)
    moreover have eq: "sanitize_comment text l = fst (blank_while is_ws r1 i1)"
      using ne len s0 True js py b1 by (simp add: sanitize_comment_def)
    moreover have "length (fst (blank_while is_ws r1 i1)) = length text"
      using blank_while_length [of "\<lambda>c. c = SLASH" "text" 0]
        blank_while_length [of is_ws r1 i1] b1 by simp
    ultimately show ?thesis using ne by auto
  next
    case nsl: False
    with s1 have st: "text ! 1 = STAR" by simp
    obtain r1 i1 where b1: "blank_while (\<lambda>c. c = STAR) (text[0 := SPACE, 1 := SPACE]) 2 = (r1, i1)"
      by (cases "blank_while (\<lambda>c. c = STAR) (text[0 := SPACE, 1 := SPACE]) 2")
    obtain r2 i2 where b2: "blank_while is_ws r1 i1 = (r2, i2)"
      by (cases "blank_while is_ws r1 i1")
    have "(text[0 := SPACE, 1 := SPACE]) ! 0 = SPACE" using ne by simp
    then have "fst (blank_while (\<lambda>c. c = STAR) (text[0 := SPACE, 1 := SPACE]) 2) ! 0 = SPACE"
      by (rule blank_while_keeps_space)
    with b1 have "r1 ! 0 = SPACE" by simp
    then have "fst (blank_while is_ws r1 i1) ! 0 = SPACE"
      by (rule blank_while_keeps_space)
    with b2 have r2: "r2 ! 0 = SPACE" by simp
    have l2: "length r2 = length text"
      using blank_while_length [of "\<lambda>c. c = STAR" "text[0 := SPACE, 1 := SPACE]" 2]
        blank_while_length [of is_ws r1 i1] b1 b2 by simp
    have upd: "(r2[length r2 - 1 := SPACE, length r2 - 2 := SPACE]) ! 0 = SPACE"
      using r2 by (intro nth_update_same_value)
    have "sanitize_comment text l ! 0 = SPACE"
      using ne len s0 st nsl js py b1 b2 r2
        blank_stars_back_keeps_space [OF upd, of "int (length r2) - 3"]
      by (simp add: sanitize_comment_def)
    moreover have "length (sanitize_comment text l) = length text"
      using ne len s0 st nsl js py b1 b2 l2
      by (simp add: sanitize_comment_def blank_stars_back_length)
    ultimately show ?thesis using ne by auto
  qed
qed

lemma sanitize_comment_blank_head:
  assumes "r \<noteq> []" and "r ! 0 = SPACE" and "l \<noteq> ascii ''python''"
  shows "sanitize_comment r l = r"
  using assms by (simp add: sanitize_comment_def)

lemma sanitize_latex_comment_idem_aux:
  assumes "r' = sanitize_latex_comment text"
  shows "sanitize_latex_comment r' = r'"
proof (cases "text = []")
  case True
  with assms show ?thesis by (simp add: sanitize_latex_comment_def)
next
  case False
  let ?r = "text[0 := SPACE]"
  have pre: "take 1 ?r = replicate 1 SPACE"
    using False by (cases "text") simp_all
  have le: "1 \<le> length ?r" using False by (cases "text") simp_all
  from assms False have r': "r' = (case blank_while (\<lambda>c. c = PERCENT) ?r 1 of
      (r1, i1) \<Rightarrow> fst (blank_while is_ws r1 i1))"
    by (simp add: sanitize_latex_comment_def)
  have idem: "(case blank_while (\<lambda>c. c = PERCENT) r' 1 of
      (r1, i1) \<Rightarrow> fst (blank_while is_ws r1 i1)) = r'"
    by (rule two_loops_idem [OF pre le _ r']) simp
  obtain r1 i1 where b1: "blank_while (\<lambda>c. c = PERCENT) ?r 1 = (r1, i1)"
    by (cases "blank_while (\<lambda>c. c = PERCENT) ?r 1")
  have "?r ! 0 = SPACE" using False by simp
  then have "fst (blank_while (\<lambda>c. c = PERCENT) ?r 1) ! 0 = SPACE"
    by (rule blank_while_keeps_space)
  with b1 have "r1 ! 0 = SPACE" by simp
  then have "fst (blank_while is_ws r1 i1) ! 0 = SPACE"
    by (rule blank_while_keeps_space)
  with r' b1 have h0: "r' ! 0 = SPACE" by simp
  have "length r' = length text"
    using r' b1 blank_while_length [of "\<lambda>c. c = PERCENT" ?r 1]
      blank_while_length [of is_ws r1 i1] by simp
  with False have ne: "r' \<noteq> []" by auto
  from h0 have "r'[0 := SPACE] = r'" by (metis list_update_id)
  with idem ne show ?thesis by (simp add: sanitize_latex_comment_def)
qed

text \<open>
  C7. Sanitizing is idempotent: for every comment text and every language id,
  \<open>_sanitize_comment\<close> applied to its own result returns that result, and so does
  \<open>_sanitize_latex_comment\<close>.
\<close>

theorem sanitize_idempotent:
  "sanitize_comment (sanitize_comment text language_id) language_id
     = sanitize_comment text language_id
   \<and> sanitize_latex_comment (sanitize_latex_comment text) = sanitize_latex_comment text"
proof
  show "sanitize_comment (sanitize_comment text language_id) language_id
          = sanitize_comment text language_id"
    using sanitize_comment_shape [of "text" language_id]
      sanitize_comment_python_idem [of _ "text"]
      sanitize_comment_blank_head [of "sanitize_comment text language_id" language_id]
    by auto
  show "sanitize_latex_comment (sanitize_latex_comment text) = sanitize_latex_comment text"
    by (rule sanitize_latex_comment_idem_aux) simp
qed

section \<open>Properties of the grammar rules\<close>

lemma ebind_Inr [simp]: "ebind (Inr x) f = f x"
  by (simp add: ebind_def)

lemma ebind_Inl [simp]: "ebind (Inl e) f = Inl e"
  by (simp add: ebind_def)



text \<open>
  \<open>check_grammar\<close> passes \<open>_compute_line_starts(text)\<close> to the rules; that table
  is never empty.
\<close>

lemma compute_line_starts_not_Nil: "compute_line_starts text \<noteq> []"
  by (simp add: compute_line_starts_def)












lemma for_each_unchanged:
  "(\<And>x. x \<in> set xs \<Longrightarrow> body x st = Inr st) \<Longrightarrow> for_each body xs st = Inr st"
  by (induction xs) simp_all

lemma for_enumerate_unchanged:
  "(\<And>k. k < length xs \<Longrightarrow> body (i + k) (xs ! k) st = Inr st)
   \<Longrightarrow> for_enumerate body i xs st = Inr st"
proof (induction xs arbitrary: i)
  case Nil
  show ?case by simp
next
  case (Cons x xs)
  have "body i x st = Inr st" using Cons.prems [of 0] by simp
  moreover have "for_enumerate body (i + 1) xs st = Inr st"
  proof (rule Cons.IH)
    fix k assume "k < length xs"
    then show "body (i + 1 + k) (xs ! k) st = Inr st"
      using Cons.prems [of "Suc k"] by simp
  qed
  ultimately show ?case by simp
qed

text \<open>
  C9. A threshold of zero or below disables each of the five rules that have one: the
  rule returns the diagnostics it was given, whatever its other arguments are.
\<close>

theorem threshold_nonpositive_disables:
  assumes "limit \<le> 0"
  shows "check_comma_limit text sentences line_starts diagnostics limit = Inr diagnostics
    \<and> check_adversative_ga text tokens sentences line_starts token_byte_positions
        diagnostics limit = Inr diagnostics
    \<and> check_duplicate_particle_surface text tokens sentences line_starts
        token_byte_positions diagnostics limit = Inr diagnostics
    \<and> check_adjacent_particles text tokens sentences line_starts token_byte_positions
        diagnostics limit = Inr diagnostics
    \<and> check_conjunction_repeats text tokens line_starts token_byte_positions
        diagnostics limit = Inr diagnostics"
  using assms
  by (simp add: check_comma_limit_def check_adversative_ga_def
      check_duplicate_particle_surface_def check_adjacent_particles_def
      check_conjunction_repeats_def)

theorem threshold_nonpositive_disables_witness:
  "(0::int) \<le> 0
   \<and> check_comma_limit kore_wa
        [\<lparr>sent_start = 0, sent_end = 48, sentence_id = 0, sent_text = kore_wa\<rparr>]
        [0] [] 0 = Inr []
   \<and> check_conjunction_repeats kore_wa [] [0] [] [] 0 = Inr []"
  using threshold_nonpositive_disables [of 0 kore_wa
      "[\<lparr>sent_start = 0, sent_end = 48, sentence_id = 0, sent_text = kore_wa\<rparr>]"
      "[0]" "[]" "[]" "[]"]
  by simp

lemma truncated_predicates:
  "length (py_split COMMA feat) < 7 \<Longrightarrow> \<not> is_adversative_ga feat"
  "length (py_split COMMA feat) < 7 \<Longrightarrow> \<not> is_ra_word feat"
  "length (py_split COMMA feat) < 7 \<Longrightarrow> \<not> is_special_ra_case feat"
  "length (py_split COMMA feat) < 6 \<Longrightarrow> \<not> is_target_verb feat"
  by (simp_all add: is_adversative_ga_def is_ra_word_def is_special_ra_case_def
      is_target_verb_def)

lemma ra_pair_body_no_match:
  assumes "\<not> is_target_verb (feature prev) \<or> \<not> is_ra_word (feature token)"
  shows "ra_pair_body text line_starts token_byte_positions i token (Some prev, diagnostics)
           = Inr (Some token, diagnostics)"
  using assms by (auto simp: ra_pair_body_def)

lemma ra_pair_body_first:
  "ra_pair_body text line_starts token_byte_positions i token (None, diagnostics)
     = Inr (Some token, diagnostics)"
  by (simp add: ra_pair_body_def)

lemma ra_pair_loop_truncated:
  assumes "\<forall>t \<in> set tokens. length (py_split COMMA (feature t)) < 7"
  shows "\<exists>p. for_enumerate (ra_pair_body text line_starts token_byte_positions) i tokens
               (prev, diagnostics) = Inr (p, diagnostics)"
  using assms
proof (induction tokens arbitrary: i prev)
  case Nil
  show ?case by simp
next
  case (Cons token tokens)
  then have "\<not> is_ra_word (feature token)" by (simp add: truncated_predicates)
  then have "ra_pair_body text line_starts token_byte_positions i token (prev, diagnostics)
               = Inr (Some token, diagnostics)"
    by (cases prev) (simp_all add: ra_pair_body_first ra_pair_body_no_match)
  with Cons.IH [of "i + 1" "Some token"] Cons.prems show ?case by simp
qed

text \<open>
  C8. A feature string with fewer than seven fields matches neither the adversative
  \<open>ga\<close> predicate nor the \<open>reru\<close> suffix predicate, and one with fewer than six does
  not match the target verb predicate. For a token with such a feature the count of
  adversative \<open>ga\<close> stays as it is, and the ra-dropping step for the token and its
  predecessor adds no diagnostic, whichever of the two is truncated; nothing is raised.
  On a stream of such tokens both rules return the diagnostics they were given.
\<close>

theorem truncated_feature_no_match:
  "(length (py_split COMMA feat) < 7 \<longrightarrow> \<not> is_adversative_ga feat \<and> \<not> is_ra_word feat)
   \<and> (length (py_split COMMA feat) < 6 \<longrightarrow> \<not> is_target_verb feat)
   \<and> (length (py_split COMMA (feature token)) < 7 \<longrightarrow>
        adversative_ga_count_body token_byte_positions sentence i token count = Inr count
        \<and> ra_pair_body text line_starts token_byte_positions i token (Some prev, diagnostics)
            = Inr (Some token, diagnostics))
   \<and> (length (py_split COMMA (feature prev)) < 6 \<longrightarrow>
        ra_pair_body text line_starts token_byte_positions i token (Some prev, diagnostics)
          = Inr (Some token, diagnostics))
   \<and> ((\<forall>t \<in> set tokens. length (py_split COMMA (feature t)) < 7) \<longrightarrow>
        check_adversative_ga text tokens sentences line_starts token_byte_positions
          diagnostics max_count = Inr diagnostics
        \<and> check_ra_dropping text tokens line_starts token_byte_positions diagnostics
            = Inr diagnostics)"
proof (intro conjI impI)
  assume "length (py_split COMMA feat) < 7"
  then show "\<not> is_adversative_ga feat" "\<not> is_ra_word feat"
    by (simp_all add: truncated_predicates)
next
  assume "length (py_split COMMA feat) < 6"
  then show "\<not> is_target_verb feat" by (simp add: truncated_predicates)
next
  assume "length (py_split COMMA (feature token)) < 7"
  then have "\<not> is_adversative_ga (feature token)" "\<not> is_ra_word (feature token)"
    by (simp_all add: truncated_predicates)
  then show "adversative_ga_count_body token_byte_positions sentence i token count = Inr count"
    "ra_pair_body text line_starts token_byte_positions i token (Some prev, diagnostics)
       = Inr (Some token, diagnostics)"
    by (simp_all add: adversative_ga_count_body_def ra_pair_body_no_match)
next
  assume "length (py_split COMMA (feature prev)) < 6"
  then have "\<not> is_target_verb (feature prev)" by (simp add: truncated_predicates)
  then show "ra_pair_body text line_starts token_byte_positions i token (Some prev, diagnostics)
       = Inr (Some token, diagnostics)"
    by (simp add: ra_pair_body_no_match)
next
  assume all: "\<forall>t \<in> set tokens. length (py_split COMMA (feature t)) < 7"
  have count: "for_enumerate (adversative_ga_count_body token_byte_positions s) 0 tokens 0
                 = Inr 0" for s
    by (rule for_enumerate_unchanged)
       (use all in \<open>simp add: adversative_ga_count_body_def truncated_predicates\<close>)
  show "check_adversative_ga text tokens sentences line_starts token_byte_positions
          diagnostics max_count = Inr diagnostics"
  proof (cases "max_count \<le> 0")
    case True
    then show ?thesis by (simp add: check_adversative_ga_def)
  next
    case False
    have "for_each (adversative_ga_body text tokens line_starts token_byte_positions max_count)
            sentences diagnostics = Inr diagnostics"
      by (rule for_each_unchanged) (use False count in \<open>simp add: adversative_ga_body_def\<close>)
    with False show ?thesis by (simp add: check_adversative_ga_def)
  qed
  have special: "for_enumerate (ra_special_body text line_starts token_byte_positions)
                   0 tokens diagnostics = Inr diagnostics"
    by (rule for_enumerate_unchanged)
       (use all in \<open>simp add: ra_special_body_def truncated_predicates\<close>)
  obtain p where "for_enumerate (ra_pair_body text line_starts token_byte_positions)
                    0 tokens (None, diagnostics) = Inr (p, diagnostics)"
    using ra_pair_loop_truncated [OF all] by blast
  with special show "check_ra_dropping text tokens line_starts token_byte_positions
                       diagnostics = Inr diagnostics"
    by (simp add: check_ra_dropping_def)
qed


text \<open>
  A verb feature cut after its fifth field, alone and before a complete \<open>reru\<close>
  suffix.
\<close>

theorem truncated_feature_no_match_witness:
  "length (py_split COMMA (join_fields [DOUSHI, JIRITSU, [STAR], [STAR], ICHIDAN])) < 6
   \<and> \<not> is_target_verb (join_fields [DOUSHI, JIRITSU, [STAR], [STAR], ICHIDAN])
   \<and> \<not> is_adversative_ga (join_fields [DOUSHI, JIRITSU, [STAR], [STAR], ICHIDAN])
   \<and> \<not> is_ra_word (join_fields [DOUSHI, JIRITSU, [STAR], [STAR], ICHIDAN])
   \<and> is_ra_word (join_fields [DOUSHI, SETSUBI, [STAR], [STAR], ICHIDAN, MIZENKEI, RERU])
   \<and> ra_pair_body [0x898B, 0x308C, 0x308B] [0] [0, 3] 1
        (token_data RERU
           (join_fields [DOUSHI, SETSUBI, [STAR], [STAR], ICHIDAN, MIZENKEI, RERU]) 0)
        (Some (token_data [0x898B]
                 (join_fields [DOUSHI, JIRITSU, [STAR], [STAR], ICHIDAN]) 0), [])
       = Inr (Some (token_data RERU
                (join_fields [DOUSHI, SETSUBI, [STAR], [STAR], ICHIDAN, MIZENKEI, RERU]) 0),
              [])
   \<and> check_ra_dropping [0x898B, 0x898B]
        [token_data [0x898B] (join_fields [DOUSHI, JIRITSU, [STAR], [STAR], ICHIDAN]) 0,
         token_data [0x898B] (join_fields [DOUSHI, JIRITSU, [STAR], [STAR], ICHIDAN]) 0]
        [0] [0, 3] [] = Inr []
   \<and> check_adversative_ga [0x898B, 0x898B]
        [token_data [0x898B] (join_fields [DOUSHI, JIRITSU, [STAR], [STAR], ICHIDAN]) 0,
         token_data [0x898B] (join_fields [DOUSHI, JIRITSU, [STAR], [STAR], ICHIDAN]) 0]
        [\<lparr>sent_start = 0, sent_end = 6, sentence_id = 0, sent_text = [0x898B, 0x898B]\<rparr>]
        [0] [0, 3] [] 1 = Inr []"
proof -
  let ?F = "join_fields [DOUSHI, JIRITSU, [STAR], [STAR], ICHIDAN]"
  let ?R = "join_fields [DOUSHI, SETSUBI, [STAR], [STAR], ICHIDAN, MIZENKEI, RERU]"
  have F: "py_split COMMA ?F = [DOUSHI, JIRITSU, [STAR], [STAR], ICHIDAN]"
    by (simp add: join_fields_def DOUSHI_def JIRITSU_def ICHIDAN_def)
  have R: "py_split COMMA ?R = [DOUSHI, SETSUBI, [STAR], [STAR], ICHIDAN, MIZENKEI, RERU]"
    by (simp add: join_fields_def DOUSHI_def SETSUBI_def ICHIDAN_def MIZENKEI_def RERU_def)
  have ra: "is_ra_word ?R" by (simp add: is_ra_word_def R)
  show ?thesis
    using truncated_feature_no_match [of ?F "token_data RERU ?R 0" "[0, 3]" _ 1 _
        "[0x898B, 0x308C, 0x308B]" "[0]" "token_data [0x898B] ?F 0" "[]"]
      truncated_feature_no_match [of ?F _ "[0, 3]" _ _ _ "[0x898B, 0x898B]" "[0]" _ "[]"
        "[token_data [0x898B] ?F 0, token_data [0x898B] ?F 0]"
        "[\<lparr>sent_start = 0, sent_end = 6, sentence_id = 0, sent_text = [0x898B, 0x898B]\<rparr>]" 1]
    by (simp add: F ra token_data_def)
qed

lemma duplicate_particle_body_skip:
  assumes "py_getitem token_byte_positions (int i) = Inr byte_pos"
    and "\<not> in_sentence byte_pos sentence \<or> \<not> is_particle (feature token)"
  shows "duplicate_particle_body text line_starts token_byte_positions max_repeat sentence
           i token st = Inr st"
  using assms by (auto simp: duplicate_particle_body_def)

lemma duplicate_particle_body_other_line:
  assumes "py_getitem token_byte_positions (int i) = Inr byte_pos"
    and "in_sentence byte_pos sentence" and "is_particle (feature token)"
    and "d_has_last st \<longrightarrow> token_line token \<noteq> d_last_line st"
  shows "\<exists>st'. duplicate_particle_body text line_starts token_byte_positions max_repeat
                 sentence i token st = Inr st'
           \<and> d_diagnostics st' = d_diagnostics st
           \<and> d_has_last st' \<and> d_last_line st' = token_line token"
  using assms by (cases "d_has_last st") (simp_all add: duplicate_particle_body_def Let_def)

lemma duplicate_particle_loop:
  assumes "i + length tokens \<le> length token_byte_positions"
    and "distinct_adj (map token_line (filter (\<lambda>t. is_particle (feature t))
           (map fst (sentence_tokens token_byte_positions sentence i tokens))))"
    and "d_has_last st \<longrightarrow>
           (case filter (\<lambda>t. is_particle (feature t))
                   (map fst (sentence_tokens token_byte_positions sentence i tokens)) of
              [] \<Rightarrow> True | t # _ \<Rightarrow> token_line t \<noteq> d_last_line st)"
  shows "\<exists>st'. for_enumerate
                 (duplicate_particle_body text line_starts token_byte_positions max_repeat
                    sentence) i tokens st = Inr st'
           \<and> d_diagnostics st' = d_diagnostics st"
  using assms
proof (induction tokens arbitrary: i st)
  case Nil
  show ?case by simp
next
  case (Cons token tokens)
  let ?body = "duplicate_particle_body text line_starts token_byte_positions max_repeat sentence"
  let ?rest = "filter (\<lambda>t. is_particle (feature t))
                 (map fst (sentence_tokens token_byte_positions sentence (i + 1) tokens))"
  from Cons.prems(1) have i: "i < length token_byte_positions"
    and len: "i + 1 + length tokens \<le> length token_byte_positions" by simp_all
  from i have get: "py_getitem token_byte_positions (int i) = Inr (token_byte_positions ! i)"
    by (rule py_getitem_in_range)
  show ?case
  proof (cases "in_sentence (token_byte_positions ! i) sentence \<and> is_particle (feature token)")
    case False
    then have step: "?body i token st = Inr st"
      using duplicate_particle_body_skip [OF get] by blast
    from False i have same: "filter (\<lambda>t. is_particle (feature t))
        (map fst (sentence_tokens token_byte_positions sentence i (token # tokens))) = ?rest"
      by auto
    from Cons.IH [OF len, of st] Cons.prems(2,3) same step show ?thesis by simp
  next
    case True
    with i have head: "filter (\<lambda>t. is_particle (feature t))
        (map fst (sentence_tokens token_byte_positions sentence i (token # tokens)))
          = token # ?rest"
      by simp
    with Cons.prems(3) have "d_has_last st \<longrightarrow> token_line token \<noteq> d_last_line st" by simp
    with True obtain st' where step: "?body i token st = Inr st'"
      and d: "d_diagnostics st' = d_diagnostics st"
      and last: "d_has_last st'" "d_last_line st' = token_line token"
      using duplicate_particle_body_other_line [OF get] by blast
    from Cons.prems(2) head have adj: "distinct_adj (token_line token # map token_line ?rest)"
      by simp
    then have "distinct_adj (map token_line ?rest)"
      by (cases ?rest) simp_all
    moreover from adj last have "d_has_last st' \<longrightarrow>
        (case ?rest of [] \<Rightarrow> True | t # _ \<Rightarrow> token_line t \<noteq> d_last_line st')"
      by (cases ?rest) simp_all
    ultimately obtain st'' where
      "for_enumerate ?body (i + 1) tokens st' = Inr st''"
      "d_diagnostics st'' = d_diagnostics st'"
      using Cons.IH [OF len, of st'] by blast
    with step d show ?thesis by simp
  qed
qed

lemma duplicate_particle_sentence_other_lines:
  assumes "length tokens \<le> length token_byte_positions"
    and "distinct_adj (map token_line (sentence_particles token_byte_positions sentence tokens))"
  shows "duplicate_particle_sentence text tokens line_starts token_byte_positions max_repeat
           sentence diagnostics = Inr diagnostics"
proof -
  let ?st = "\<lparr>d_last_surface = [], d_last_key = [], d_last_start_byte = 0,
               d_last_line = - 1, d_streak = 1, d_has_last = False,
               d_diagnostics = diagnostics\<rparr>"
  have "\<exists>st'. for_enumerate
      (duplicate_particle_body text line_starts token_byte_positions max_repeat sentence)
      0 tokens ?st = Inr st' \<and> d_diagnostics st' = d_diagnostics ?st"
    by (rule duplicate_particle_loop) (use assms in \<open>simp_all add: sentence_particles_def\<close>)
  then obtain st' where "for_enumerate
      (duplicate_particle_body text line_starts token_byte_positions max_repeat sentence)
      0 tokens ?st = Inr st'" "d_diagnostics st' = d_diagnostics ?st"
    by blast
  then show ?thesis by (simp add: duplicate_particle_sentence_def)
qed

lemma duplicate_particle_body_line_change:
  assumes "py_getitem token_byte_positions (int i) = Inr byte_pos"
    and "in_sentence byte_pos sentence" and "is_particle (feature token)"
    and "d_has_last st" and "token_line token \<noteq> d_last_line st"
  shows "duplicate_particle_body text line_starts token_byte_positions max_repeat
           sentence i token st
         = Inr (st\<lparr>d_last_surface := surface token,
                   d_last_key := particle_key (feature token),
                   d_last_start_byte := byte_pos, d_last_line := token_line token,
                   d_streak := 1, d_has_last := True\<rparr>)"
  using assms by (simp add: duplicate_particle_body_def Let_def)

text \<open>
  C4. In \<open>_check_duplicate_particle_surface\<close>, a token on another line than the
  previous particle of the sentence resets the streak. The step for a particle of the
  sentence on another line returns the state with the streak counter set to 1, the
  start of the streak set to the byte position of the token, the token recorded as the
  last particle, and the diagnostics as they were, whatever the surface, the key and
  \<open>max_repeat\<close> are; the step for any other token on another line returns the state
  unchanged. So when every two particles that follow each other in a sentence lie on
  different lines, the rule returns the diagnostics it was given; this holds for
  \<open>max_repeat = 1\<close> in particular. The byte positions cover the tokens, as
  \<open>check_grammar\<close> builds them.
\<close>

theorem duplicate_particle_reset_across_lines:
  "(i < length token_byte_positions \<and> d_has_last st \<and> token_line token \<noteq> d_last_line st
      \<longrightarrow> duplicate_particle_body text line_starts token_byte_positions max_repeat
            sentence i token st
          = Inr (if in_sentence (token_byte_positions ! i) sentence
                    \<and> is_particle (feature token)
                 then st\<lparr>d_last_surface := surface token,
                         d_last_key := particle_key (feature token),
                         d_last_start_byte := token_byte_positions ! i,
                         d_last_line := token_line token,
                         d_streak := 1, d_has_last := True\<rparr>
                 else st))
   \<and> (length tokens \<le> length token_byte_positions
        \<and> (\<forall>s \<in> set sentences.
              distinct_adj (map token_line (sentence_particles token_byte_positions s tokens)))
      \<longrightarrow> check_duplicate_particle_surface text tokens sentences line_starts
            token_byte_positions diagnostics max_repeat = Inr diagnostics)"
proof (intro conjI impI)
  assume h: "i < length token_byte_positions \<and> d_has_last st
             \<and> token_line token \<noteq> d_last_line st"
  then have get: "py_getitem token_byte_positions (int i) = Inr (token_byte_positions ! i)"
    by (simp add: py_getitem_in_range)
  show "duplicate_particle_body text line_starts token_byte_positions max_repeat
            sentence i token st
          = Inr (if in_sentence (token_byte_positions ! i) sentence
                    \<and> is_particle (feature token)
                 then st\<lparr>d_last_surface := surface token,
                         d_last_key := particle_key (feature token),
                         d_last_start_byte := token_byte_positions ! i,
                         d_last_line := token_line token,
                         d_streak := 1, d_has_last := True\<rparr>
                 else st)"
  proof (cases "in_sentence (token_byte_positions ! i) sentence \<and> is_particle (feature token)")
    case False
    then show ?thesis using duplicate_particle_body_skip [OF get] by auto
  next
    case True
    with h show ?thesis using duplicate_particle_body_line_change [OF get] by simp
  qed
next
  assume h: "length tokens \<le> length token_byte_positions
        \<and> (\<forall>s \<in> set sentences.
              distinct_adj (map token_line (sentence_particles token_byte_positions s tokens)))"
  have "for_each (duplicate_particle_sentence text tokens line_starts token_byte_positions
          max_repeat) sentences diagnostics = Inr diagnostics"
    by (rule for_each_unchanged)
       (use h in \<open>simp add: duplicate_particle_sentence_other_lines\<close>)
  then show "check_duplicate_particle_surface text tokens sentences line_starts
            token_byte_positions diagnostics max_repeat = Inr diagnostics"
    by (simp add: check_duplicate_particle_surface_def)
qed


lemma particle_ga:
  "py_split COMMA (join_fields [JOSHI, SETSUZOKU_JOSHI]) = [JOSHI, SETSUZOKU_JOSHI]"
  "is_particle (join_fields [JOSHI, SETSUZOKU_JOSHI])"
  "particle_key (join_fields [JOSHI, SETSUZOKU_JOSHI]) = JOSHI @ [COMMA] @ SETSUZOKU_JOSHI"
proof -
  show s: "py_split COMMA (join_fields [JOSHI, SETSUZOKU_JOSHI]) = [JOSHI, SETSUZOKU_JOSHI]"
    by (simp add: join_fields_def JOSHI_def SETSUZOKU_JOSHI_def)
  show "is_particle (join_fields [JOSHI, SETSUZOKU_JOSHI])"
    by (simp add: is_particle_def s)
  show "particle_key (join_fields [JOSHI, SETSUZOKU_JOSHI]) = JOSHI @ [COMMA] @ SETSUZOKU_JOSHI"
    by (simp add: particle_key_def s)
qed

text \<open>
  Two tokens \<open>ga\<close> with the same feature, on the lines 0 and 1 of a text with a line
  feed between them, and \<open>max_repeat = 1\<close>. The step is taken for the second token in a
  state whose streak counter is 2: it comes out as 1, and the streak starts at byte 4.
\<close>

theorem duplicate_particle_reset_across_lines_witness:
  "(1::nat) < length [0, 4 :: int]
   \<and> d_has_last \<lparr>d_last_surface = GA,
          d_last_key = particle_key (join_fields [JOSHI, SETSUZOKU_JOSHI]),
          d_last_start_byte = 0, d_last_line = 0, d_streak = 2, d_has_last = True,
          d_diagnostics = []\<rparr>
   \<and> token_line (token_data GA (join_fields [JOSHI, SETSUZOKU_JOSHI]) 1)
       \<noteq> d_last_line \<lparr>d_last_surface = GA,
            d_last_key = particle_key (join_fields [JOSHI, SETSUZOKU_JOSHI]),
            d_last_start_byte = 0, d_last_line = 0, d_streak = 2, d_has_last = True,
            d_diagnostics = []\<rparr>
   \<and> duplicate_particle_body (GA @ [NL] @ GA) [0, 2] [0, 4] 1
        \<lparr>sent_start = 0, sent_end = 7, sentence_id = 0, sent_text = GA @ [NL] @ GA\<rparr>
        1 (token_data GA (join_fields [JOSHI, SETSUZOKU_JOSHI]) 1)
        \<lparr>d_last_surface = GA,
         d_last_key = particle_key (join_fields [JOSHI, SETSUZOKU_JOSHI]),
         d_last_start_byte = 0, d_last_line = 0, d_streak = 2, d_has_last = True,
         d_diagnostics = []\<rparr>
       = Inr \<lparr>d_last_surface = GA,
              d_last_key = particle_key (join_fields [JOSHI, SETSUZOKU_JOSHI]),
              d_last_start_byte = 4, d_last_line = 1, d_streak = 1, d_has_last = True,
              d_diagnostics = []\<rparr>
   \<and> length [token_data GA (join_fields [JOSHI, SETSUZOKU_JOSHI]) 0,
           token_data GA (join_fields [JOSHI, SETSUZOKU_JOSHI]) 1] \<le> length [0, 4 :: int]
   \<and> distinct_adj (map token_line (sentence_particles [0, 4]
         \<lparr>sent_start = 0, sent_end = 7, sentence_id = 0, sent_text = GA @ [NL] @ GA\<rparr>
         [token_data GA (join_fields [JOSHI, SETSUZOKU_JOSHI]) 0,
          token_data GA (join_fields [JOSHI, SETSUZOKU_JOSHI]) 1]))
   \<and> sentence_particles [0, 4]
        \<lparr>sent_start = 0, sent_end = 7, sentence_id = 0, sent_text = GA @ [NL] @ GA\<rparr>
        [token_data GA (join_fields [JOSHI, SETSUZOKU_JOSHI]) 0,
         token_data GA (join_fields [JOSHI, SETSUZOKU_JOSHI]) 1]
       = [token_data GA (join_fields [JOSHI, SETSUZOKU_JOSHI]) 0,
          token_data GA (join_fields [JOSHI, SETSUZOKU_JOSHI]) 1]
   \<and> check_duplicate_particle_surface (GA @ [NL] @ GA)
        [token_data GA (join_fields [JOSHI, SETSUZOKU_JOSHI]) 0,
         token_data GA (join_fields [JOSHI, SETSUZOKU_JOSHI]) 1]
        [\<lparr>sent_start = 0, sent_end = 7, sentence_id = 0, sent_text = GA @ [NL] @ GA\<rparr>]
        [0, 2] [0, 4] [] 1 = Inr []"
  using duplicate_particle_reset_across_lines [of 1 "[0, 4]"
      "\<lparr>d_last_surface = GA,
        d_last_key = particle_key (join_fields [JOSHI, SETSUZOKU_JOSHI]),
        d_last_start_byte = 0, d_last_line = 0, d_streak = 2, d_has_last = True,
        d_diagnostics = []\<rparr>"
      "token_data GA (join_fields [JOSHI, SETSUZOKU_JOSHI]) 1"
      "GA @ [NL] @ GA" "[0, 2]" 1
      "\<lparr>sent_start = 0, sent_end = 7, sentence_id = 0, sent_text = GA @ [NL] @ GA\<rparr>"
      "[token_data GA (join_fields [JOSHI, SETSUZOKU_JOSHI]) 0,
        token_data GA (join_fields [JOSHI, SETSUZOKU_JOSHI]) 1]"
      "[\<lparr>sent_start = 0, sent_end = 7, sentence_id = 0, sent_text = GA @ [NL] @ GA\<rparr>]"
      "[]"]
  by (simp add: sentence_particles_def in_sentence_def particle_ga token_data_def)

text \<open>The same two tokens on one line do give a diagnostic, over both of them.\<close>

lemma utf8_encode_ga_ga: "utf8_encode (GA @ GA) = Inr [227, 129, 140, 227, 129, 140]"
  by (simp add: GA_def utf8_encode_char_def)

lemma make_range_ga_ga:
  "make_range (GA @ GA) [0] 0 6
     = Inr \<lparr>start_pos = \<lparr>line = 0, character = 0\<rparr>,
            end_pos = \<lparr>line = 0, character = 2\<rparr>\<rparr>"
  unfolding make_range_def byte_offset_to_position_def utf8_encode_ga_ga
  by (simp add: py_slice_to_def slice_index_def utf8_decode_step_def is_continuation_def
      py_getitem_def py_index_def py_slice_def utf8_to_utf16_length_def GA_def Let_def)

lemma duplicate_particle_same_line_example:
  "check_duplicate_particle_surface (GA @ GA)
     [token_data GA (join_fields [JOSHI, SETSUZOKU_JOSHI]) 0,
      token_data GA (join_fields [JOSHI, SETSUZOKU_JOSHI]) 0]
     [\<lparr>sent_start = 0, sent_end = 6, sentence_id = 0, sent_text = GA @ GA\<rparr>]
     [0] [0, 3] [] 1
   = Inr [new_diagnostic
            \<lparr>start_pos = \<lparr>line = 0, character = 0\<rparr>,
             end_pos = \<lparr>line = 0, character = 2\<rparr>\<rparr>
            (DuplicateParticleMessage GA)]"
proof -
  have b: "byte_length GA = Inr 3"
    by (simp add: byte_length_def GA_def utf8_encode_char_def)
  show ?thesis
    by (simp add: check_duplicate_particle_surface_def duplicate_particle_sentence_def
        duplicate_particle_body_def py_getitem_def py_index_def in_sentence_def
        particle_ga token_data_def Let_def b make_range_ga_ga)
qed

text \<open>
  A line feed, then two tokens \<open>ga\<close> on the next line, with \<open>max_repeat = 2\<close>: the streak
  starts again at the second token, so the third one brings it to 2 only and nothing
  is reported.
\<close>

lemma duplicate_particle_line_change_then_pair_example:
  "check_duplicate_particle_surface (GA @ [NL] @ GA @ GA)
     [token_data GA (join_fields [JOSHI, SETSUZOKU_JOSHI]) 0,
      token_data GA (join_fields [JOSHI, SETSUZOKU_JOSHI]) 1,
      token_data GA (join_fields [JOSHI, SETSUZOKU_JOSHI]) 1]
     [\<lparr>sent_start = 0, sent_end = 10, sentence_id = 0, sent_text = GA @ [NL] @ GA @ GA\<rparr>]
     [0, 2] [0, 4, 7] [] 2
   = Inr []"
  by (simp add: check_duplicate_particle_surface_def duplicate_particle_sentence_def
        duplicate_particle_body_def py_getitem_def py_index_def in_sentence_def
        particle_ga token_data_def Let_def)








lemma byte_length_ga: "byte_length GA = Inr 3"
  by (simp add: byte_length_def GA_def utf8_encode_char_def)


text \<open>Without the space, at the bytes 0 and 3, the two tokens are flagged.\<close>

lemma adjacent_particles_adjacent_example:
  "check_adjacent_particles (GA @ GA)
     [token_data GA (join_fields [JOSHI, SETSUZOKU_JOSHI]) 0,
      token_data GA (join_fields [JOSHI, SETSUZOKU_JOSHI]) 0]
     [\<lparr>sent_start = 0, sent_end = 6, sentence_id = 0, sent_text = GA @ GA\<rparr>]
     [0] [0, 3] [] 1
   = Inr [new_diagnostic
            \<lparr>start_pos = \<lparr>line = 0, character = 0\<rparr>,
             end_pos = \<lparr>line = 0, character = 2\<rparr>\<rparr>
            AdjacentParticlesMessage]"
  by (simp add: check_adjacent_particles_def adjacent_particles_sentence_def
      adjacent_particles_body_def py_getitem_def py_index_def in_sentence_def
      particle_ga token_data_def Let_def byte_length_ga make_range_ga_ga)

lemma neighbours_simps [simp]:
  "neighbours [] = []" "neighbours [x] = []"
  "neighbours (x # y # xs) = (x, y) # neighbours (y # xs)"
  by (simp_all add: neighbours_def)










section \<open>Properties of UTF-8 and of the offsets\<close>

lemma utf8_decode_step_1: "c < 0x80 \<Longrightarrow> utf8_decode_step c rest = (c, 1)"
  by (simp add: utf8_decode_step_def)

lemma utf8_decode_step_2_digits:
  assumes "2 \<le> k" "k < 32" "r0 < 64"
  shows "utf8_decode_step (0xC0 + k) ((0x80 + r0) # rest) = (k * 64 + r0, 2)"
  using assms by (simp add: utf8_decode_step_def is_continuation_def)

lemma utf8_decode_step_3_digits:
  assumes "k2 < 16" "r1 < 64" "r0 < 64" "k2 = 0 \<longrightarrow> 32 \<le> r1" "k2 = 13 \<longrightarrow> r1 < 32"
  shows "utf8_decode_step (0xE0 + k2) ((0x80 + r1) # (0x80 + r0) # rest)
           = (k2 * 4096 + r1 * 64 + r0, 3)"
  using assms by (auto simp: utf8_decode_step_def is_continuation_def)

lemma utf8_decode_step_4_digits:
  assumes "k3 < 5" "r2 < 64" "r1 < 64" "r0 < 64" "k3 = 0 \<longrightarrow> 16 \<le> r2" "k3 = 4 \<longrightarrow> r2 < 16"
  shows "utf8_decode_step (0xF0 + k3) ((0x80 + r2) # (0x80 + r1) # (0x80 + r0) # rest)
           = (k3 * 262144 + r2 * 4096 + r1 * 64 + r0, 4)"
  using assms by (auto simp: utf8_decode_step_def is_continuation_def)

lemma radix64_digits:
  fixes c :: nat
  shows "c div 4096 = (c div 64) div 64" "c div 262144 = ((c div 64) div 64) div 64"
    "(c div 4096) mod 64 = ((c div 64) div 64) mod 64"
  by (simp_all add: div_mult2_eq [symmetric])

lemma utf8_decode_step_2:
  assumes "0x80 \<le> c" "c < 0x800"
  shows "utf8_decode_step (0xC0 + c div 64) ((0x80 + c mod 64) # rest) = (c, 2)"
proof -
  have "2 \<le> c div 64" "c div 64 < 32" "c mod 64 < 64" using assms by simp_all
  from utf8_decode_step_2_digits [OF this] show ?thesis by simp
qed

lemma utf8_decode_step_3:
  assumes "0x800 \<le> c" "c < 0x10000" "\<not> (0xD800 \<le> c \<and> c \<le> 0xDFFF)"
  shows "utf8_decode_step (0xE0 + c div 4096)
           ((0x80 + (c div 64) mod 64) # (0x80 + c mod 64) # rest) = (c, 3)"
proof -
  define k where "k = c div 64"
  define k2 where "k2 = k div 64"
  define r1 where "r1 = k mod 64"
  define r0 where "r0 = c mod 64"
  have c: "c = k * 64 + r0" and k: "k = k2 * 64 + r1" and r: "r0 < 64" "r1 < 64"
    by (simp_all add: k_def k2_def r1_def r0_def)
  have "k2 < 16" "k2 = 0 \<longrightarrow> 32 \<le> r1" "k2 = 13 \<longrightarrow> r1 < 32"
    using assms c k r by auto
  from utf8_decode_step_3_digits [OF this(1) r(2) r(1) this(2,3), of rest]
  have step: "utf8_decode_step (0xE0 + k2) ((0x80 + r1) # (0x80 + r0) # rest)
                = (k2 * 4096 + r1 * 64 + r0, 3)" .
  have b: "c div 4096 = k2" "(c div 64) mod 64 = r1" "c mod 64 = r0"
    by (simp_all add: radix64_digits k_def k2_def r1_def r0_def)
  have v: "k2 * 4096 + r1 * 64 + r0 = c" using c k by simp
  show ?thesis using step unfolding b v .
qed

lemma utf8_decode_step_4:
  assumes "0x10000 \<le> c" "c < 0x110000"
  shows "utf8_decode_step (0xF0 + c div 262144)
           ((0x80 + (c div 4096) mod 64) # (0x80 + (c div 64) mod 64)
              # (0x80 + c mod 64) # rest) = (c, 4)"
proof -
  define k where "k = c div 64"
  define k2 where "k2 = k div 64"
  define k3 where "k3 = k2 div 64"
  define r2 where "r2 = k2 mod 64"
  define r1 where "r1 = k mod 64"
  define r0 where "r0 = c mod 64"
  have c: "c = k * 64 + r0" and k: "k = k2 * 64 + r1" and k2: "k2 = k3 * 64 + r2"
    and r: "r0 < 64" "r1 < 64" "r2 < 64"
    by (simp_all add: k_def k2_def k3_def r2_def r1_def r0_def)
  have "k3 < 5" "k3 = 0 \<longrightarrow> 16 \<le> r2" "k3 = 4 \<longrightarrow> r2 < 16"
    using assms c k k2 r by auto
  from utf8_decode_step_4_digits [OF this(1) r(3) r(2) r(1) this(2,3), of rest]
  have step: "utf8_decode_step (0xF0 + k3)
                ((0x80 + r2) # (0x80 + r1) # (0x80 + r0) # rest)
                = (k3 * 262144 + r2 * 4096 + r1 * 64 + r0, 4)" .
  have b: "c div 262144 = k3" "(c div 4096) mod 64 = r2" "(c div 64) mod 64 = r1"
    "c mod 64 = r0"
    by (simp_all add: radix64_digits k_def k2_def k3_def r2_def r1_def r0_def)
  have v: "k3 * 262144 + r2 * 4096 + r1 * 64 + r0 = c" using c k k2 by simp
  show ?thesis using step unfolding b v .
qed


lemma utf8_decode_encode_char:
  assumes "utf8_encode_char c = Inr bs"
  shows "utf8_decode (bs @ rest) = c # utf8_decode rest"
proof -
  consider "c < 0x80" | "0x80 \<le> c" "c < 0x800"
    | "0x800 \<le> c" "c < 0x10000" "\<not> (0xD800 \<le> c \<and> c \<le> 0xDFFF)"
    | "0x10000 \<le> c" "c < 0x110000"
    using assms by (auto simp: utf8_encode_char_def split: if_splits)
  then show ?thesis
  proof cases
    case 1
    with assms show ?thesis by (auto simp: utf8_encode_char_def utf8_decode_step_1)
  next
    case 2
    with assms utf8_decode_step_2 [OF 2, of rest] show ?thesis
      by (auto simp: utf8_encode_char_def)
  next
    case 3
    with assms utf8_decode_step_3 [OF 3, of rest] show ?thesis
      by (auto simp: utf8_encode_char_def)
  next
    case 4
    with assms utf8_decode_step_4 [OF 4, of rest] show ?thesis
      by (auto simp: utf8_encode_char_def)
  qed
qed

lemma utf8_decode_encode:
  "utf8_encode s = Inr bs \<Longrightarrow> utf8_decode (bs @ rest) = s @ utf8_decode rest"
proof (induction s arbitrary: bs)
  case Nil
  then show ?case by simp
next
  case (Cons c cs)
  then obtain b1 b2 where b: "utf8_encode_char c = Inr b1" "utf8_encode cs = Inr b2"
    "bs = b1 @ b2"
    by (auto split: sum.splits)
  from utf8_decode_encode_char [OF b(1), of "b2 @ rest"] Cons.IH [OF b(2)] b(3)
  show ?case by simp
qed

lemma utf8_encode_append:
  "utf8_encode xs = Inr a \<Longrightarrow> utf8_encode ys = Inr b \<Longrightarrow> utf8_encode (xs @ ys) = Inr (a @ b)"
  by (induction xs arbitrary: a) (auto split: sum.splits)

lemma utf8_encode_take:
  assumes "utf8_encode s = Inr bs"
  shows "\<exists>pre. utf8_encode (take k s) = Inr pre \<and> take (length pre) bs = pre"
  using assms
proof (induction s arbitrary: bs k)
  case Nil
  then show ?case by simp
next
  case (Cons c cs)
  then obtain b1 b2 where b: "utf8_encode_char c = Inr b1" "utf8_encode cs = Inr b2"
    "bs = b1 @ b2"
    by (auto split: sum.splits)
  show ?case
  proof (cases k)
    case 0
    then show ?thesis by simp
  next
    case (Suc k')
    from Cons.IH [OF b(2), of k'] obtain pre where
      "utf8_encode (take k' cs) = Inr pre" "take (length pre) b2 = pre" by blast
    with b Suc show ?thesis by simp
  qed
qed

lemma py_split_not_Nil [simp]: "py_split sep s \<noteq> []"
  by (induction s) (auto split: list.splits)

lemma py_split_Cons_sep: "py_split sep (sep # s) = [] # py_split sep s"
  by simp

lemma py_split_Cons_other:
  "c \<noteq> sep \<Longrightarrow> py_split sep (c # s) = (c # hd (py_split sep s)) # tl (py_split sep s)"
  by (cases "py_split sep s") simp_all

lemma utf16_length_Cons [simp]:
  "utf8_to_utf16_length (c # s) = units c + utf8_to_utf16_length s"
  "utf8_to_utf16_length [] = 0"
  by (simp_all add: utf8_to_utf16_length_def)

lemma end_position_Nil: "end_position [] = \<lparr>line = 0, character = 0\<rparr>"
  by (simp add: end_position_def)

lemma end_position_NL:
  "end_position (NL # s)
     = \<lparr>line = Suc (line (end_position s)), character = character (end_position s)\<rparr>"
proof -
  have "length (py_split NL s) - 1 + 1 = length (py_split NL s)"
    using py_split_not_Nil [of NL s] by (cases "py_split NL s") simp_all
  then show ?thesis by (simp add: end_position_def)
qed

lemma end_position_other:
  assumes "c \<noteq> NL"
  shows "end_position (c # s)
     = (if line (end_position s) = 0
        then \<lparr>line = 0, character = units c + character (end_position s)\<rparr>
        else end_position s)"
proof (cases "py_split NL s")
  case Nil
  then show ?thesis by simp
next
  case (Cons p ps)
  with assms show ?thesis
    by (cases ps) (simp_all add: end_position_def)
qed

lemma sum_line_lengths_eq:
  "sum_line_lengths lines i n offset
     = offset + sum_list (map (\<lambda>l. length l + 1) (take n (drop i lines)))"
proof (induction n arbitrary: i offset)
  case 0
  show ?case by simp
next
  case (Suc n)
  show ?case
  proof (cases "i < length lines")
    case True
    then have "drop i lines = lines ! i # drop (i + 1) lines"
      by (simp add: Cons_nth_drop_Suc)
    with True Suc [of "i + 1"] show ?thesis by simp
  next
    case False
    with Suc [of "i + 1"] show ?thesis by simp
  qed
qed

lemma position_to_offset_eq:
  "position_to_offset text p
     = sum_list (map (\<lambda>l. length l + 1) (take (line p) (py_split NL text)))
       + (if line p < length (py_split NL text)
          then utf16_walk (character p) (py_split NL text ! line p) 0 0 else 0)"
  by (simp add: position_to_offset_def sum_line_lengths_eq Let_def)

lemma utf16_walk_shift:
  "utf16_walk (u + t) l (u + v) (k + j) = k + utf16_walk t l v j"
proof (induction l arbitrary: v j)
  case Nil
  show ?case by simp
next
  case (Cons c cs)
  from Cons [of "v + 2" "j + 1"] Cons [of "v + 1" "j + 1"] show ?case
    by (simp add: add.assoc)
qed

lemma utf16_walk_exact:
  "j \<le> length l \<Longrightarrow> utf16_walk (v + utf8_to_utf16_length (take j l)) l v k = k + j"
proof (induction l arbitrary: j v k)
  case Nil
  then show ?case by simp
next
  case (Cons c cs)
  show ?case
  proof (cases j)
    case 0
    then show ?thesis by simp
  next
    case (Suc j')
    with Cons.prems have j': "j' \<le> length cs" by simp
    from Cons.IH [OF j', of "v + units c" "k + 1"] Suc show ?thesis
      by (cases "0xFFFF < c") (simp_all add: add.assoc)
  qed
qed

lemma position_to_offset_origin:
  "position_to_offset text \<lparr>line = 0, character = 0\<rparr> = 0"
  by (cases "py_split NL text"; cases "hd (py_split NL text)")
     (simp_all add: position_to_offset_eq)

lemma position_to_offset_NL:
  "position_to_offset (NL # s) \<lparr>line = Suc n, character = ch\<rparr>
     = 1 + position_to_offset s \<lparr>line = n, character = ch\<rparr>"
  by (simp add: position_to_offset_eq)

lemma position_to_offset_other_Suc:
  assumes "c \<noteq> NL"
  shows "position_to_offset (c # s) \<lparr>line = Suc n, character = ch\<rparr>
     = 1 + position_to_offset s \<lparr>line = Suc n, character = ch\<rparr>"
proof (cases "py_split NL s")
  case Nil
  then show ?thesis by simp
next
  case (Cons p ps)
  with assms show ?thesis by (simp add: position_to_offset_eq)
qed

lemma position_to_offset_other_0:
  assumes "c \<noteq> NL"
  shows "position_to_offset (c # s) \<lparr>line = 0, character = units c + ch\<rparr>
     = 1 + position_to_offset s \<lparr>line = 0, character = ch\<rparr>"
proof (cases "py_split NL s")
  case Nil
  then show ?thesis by simp
next
  case (Cons p ps)
  have "utf16_walk (units c + ch) p (units c + 0) (1 + 0) = 1 + utf16_walk ch p 0 0"
    by (rule utf16_walk_shift)
  with assms Cons show ?thesis
    by (cases "0xFFFF < c") (simp_all add: position_to_offset_eq numeral_2_eq_2)
qed

lemma position_to_offset_end_position:
  "k \<le> length text \<Longrightarrow> position_to_offset text (end_position (take k text)) = k"
proof (induction "text" arbitrary: k)
  case Nil
  then show ?case by (simp add: end_position_Nil position_to_offset_origin)
next
  case (Cons c cs)
  show ?case
  proof (cases k)
    case 0
    then show ?thesis by (simp add: end_position_Nil position_to_offset_origin)
  next
    case (Suc k')
    with Cons.prems have k': "k' \<le> length cs" by simp
    obtain n ch where p: "end_position (take k' cs) = \<lparr>line = n, character = ch\<rparr>"
      by (cases "end_position (take k' cs)") simp
    from Cons.IH [OF k'] p
    have IH: "position_to_offset cs \<lparr>line = n, character = ch\<rparr> = k'" by simp
    show ?thesis
    proof (cases "c = NL")
      case True
      with Suc p IH show ?thesis
        by (simp add: end_position_NL position_to_offset_NL)
    next
      case False
      show ?thesis
      proof (cases n)
        case 0
        with False Suc p IH position_to_offset_other_0 [OF False, of cs ch] show ?thesis
          by (simp add: end_position_other)
      next
        case (Suc m)
        with False \<open>k = Suc k'\<close> p IH position_to_offset_other_Suc [OF False, of cs m ch]
        show ?thesis by (simp add: end_position_other)
      qed
    qed
  qed
qed


lemma in_map_upt: "x \<in> set (map f [0..<Suc n]) \<longleftrightarrow> (\<exists>j\<le>n. x = f j)"
  by (auto simp del: upt_Suc simp add: less_Suc_eq_le)

lemma position_on_boundary_iff:
  "position_on_boundary text p \<longleftrightarrow>
     line p < length (py_split NL text)
     \<and> (\<exists>j \<le> length (py_split NL text ! line p).
           character p = utf8_to_utf16_length (take j (py_split NL text ! line p)))"
  by (simp only: position_on_boundary_def Let_def in_map_upt)

lemma boundary_has_offset:
  "position_on_boundary text p \<Longrightarrow> \<exists>k \<le> length text. end_position (take k text) = p"
proof (induction "text" arbitrary: p)
  case Nil
  then have "p = \<lparr>line = 0, character = 0\<rparr>"
    by (cases p) (simp add: position_on_boundary_iff)
  then show ?case by (simp add: end_position_Nil)
next
  case (Cons c cs)
  obtain n ch where p: "p = \<lparr>line = n, character = ch\<rparr>" by (cases p) simp
  let ?L = "py_split NL cs"
  show ?case
  proof (cases "c = NL")
    case True
    show ?thesis
    proof (cases n)
      case 0
      with Cons.prems True p have "p = \<lparr>line = 0, character = 0\<rparr>"
        by (simp add: position_on_boundary_iff)
      then show ?thesis by (intro exI [of _ 0]) (simp add: end_position_Nil)
    next
      case (Suc m)
      with Cons.prems True p have "position_on_boundary cs \<lparr>line = m, character = ch\<rparr>"
        by (simp add: position_on_boundary_iff)
      from Cons.IH [OF this] obtain k where "k \<le> length cs"
        "end_position (take k cs) = \<lparr>line = m, character = ch\<rparr>" by blast
      with True p Suc show ?thesis
        by (intro exI [of _ "Suc k"]) (simp add: end_position_NL)
    qed
  next
    case False
    then have L: "py_split NL (c # cs) = (c # hd ?L) # tl ?L"
      by (rule py_split_Cons_other)
    have hdtl: "?L = hd ?L # tl ?L" by simp
    show ?thesis
    proof (cases n)
      case (Suc m)
      from Cons.prems [unfolded position_on_boundary_iff L] p Suc
      have "m < length (tl ?L)"
        and "\<exists>j \<le> length (tl ?L ! m). ch = utf8_to_utf16_length (take j (tl ?L ! m))"
        by auto
      then have "position_on_boundary cs \<lparr>line = Suc m, character = ch\<rparr>"
        using hdtl by (simp add: position_on_boundary_iff nth_tl)
      from Cons.IH [OF this] obtain k where "k \<le> length cs"
        "end_position (take k cs) = \<lparr>line = Suc m, character = ch\<rparr>" by blast
      with False p Suc show ?thesis
        by (intro exI [of _ "Suc k"]) (simp add: end_position_other)
    next
      case 0
      with Cons.prems [unfolded position_on_boundary_iff L] p
      obtain j where j: "j \<le> Suc (length (hd ?L))"
        "ch = utf8_to_utf16_length (take j (c # hd ?L))"
        by auto
      show ?thesis
      proof (cases j)
        case 0
        with j p \<open>n = 0\<close> have "p = \<lparr>line = 0, character = 0\<rparr>" by simp
        then show ?thesis by (intro exI [of _ 0]) (simp add: end_position_Nil)
      next
        case (Suc j')
        let ?ch' = "utf8_to_utf16_length (take j' (hd ?L))"
        from j Suc have "j' \<le> length (hd ?L)" and ch: "ch = units c + ?ch'" by simp_all
        then have "position_on_boundary cs \<lparr>line = 0, character = ?ch'\<rparr>"
          using hdtl by (auto simp: position_on_boundary_iff hd_conv_nth)
        from Cons.IH [OF this] obtain k where "k \<le> length cs"
          "end_position (take k cs) = \<lparr>line = 0, character = ?ch'\<rparr>" by blast
        with False p \<open>n = 0\<close> ch show ?thesis
          by (intro exI [of _ "Suc k"]) (simp add: end_position_other)
      qed
    qed
  qed
qed

lemma server_position_of_prefix:
  assumes enc: "utf8_encode text = Inr text_bytes"
    and pre: "utf8_encode (take k text) = Inr pre"
  shows "server_byte_offset_to_position text (int (length pre))
           = Inr (end_position (take k text))"
proof -
  from utf8_encode_take [OF enc, of k] pre have tk: "take (length pre) text_bytes = pre"
    by simp
  then have le: "length pre \<le> length text_bytes"
    by (metis length_take min.cobounded2 min.commute)
  have sl: "py_slice_to text_bytes (int (length pre)) = pre"
    using tk le by (simp add: py_slice_to_def slice_index_def)
  have full: "py_slice_to text_bytes (int (length text_bytes)) = text_bytes"
    by (simp add: py_slice_to_def slice_index_def)
  have dec: "utf8_decode pre = take k text"
    using utf8_decode_encode [OF pre, of "[]"] by simp
  have eq: "length text_bytes \<le> length pre \<Longrightarrow> text_bytes = pre"
    using tk le by simp
  show ?thesis
    using enc sl full dec eq
    by (auto simp: server_byte_offset_to_position_def Let_def end_position_def
        utf8_to_utf16_length_def)
qed


lemma position_to_byte_offset_end_position:
  assumes "k \<le> length text"
  shows "position_to_byte_offset text (end_position (take k text))
           = byte_length (take k text)"
proof -
  have "py_slice_to text (int k) = take k text"
    using assms by (simp add: py_slice_to_def slice_index_def)
  with position_to_offset_end_position [OF assms] show ?thesis
    by (simp add: position_to_byte_offset_def)
qed

text \<open>
  C2, amended. For a text that has a UTF-8 encoding: a position on a character boundary
  (within range, and not between the two code units of a surrogate pair) is turned into
  a byte offset by \<open>_position_to_offset\<close> and the encoding of the prefix, and
  \<open>_byte_offset_to_position\<close> turns that offset back into the position; a byte offset
  on a character boundary is turned into a position and back into the same offset;
  \<open>_byte_offset_to_position\<close> returns for every offset, and an offset from the length
  of the encoded text upwards gives the position of the end of the text.
\<close>

theorem offset_round_trip:
  assumes "encodable text"
  shows "(position_on_boundary text p \<longrightarrow>
           (\<exists>b. position_to_byte_offset text p = Inr b
                \<and> server_byte_offset_to_position text b = Inr p))
       \<and> (offset_on_boundary text b \<longrightarrow>
           (\<exists>q. server_byte_offset_to_position text b = Inr q
                \<and> position_to_byte_offset text q = Inr b))
       \<and> (\<exists>q. server_byte_offset_to_position text off = Inr q)
       \<and> (\<exists>n. byte_length text = Inr n
               \<and> (n \<le> off \<longrightarrow> server_byte_offset_to_position text off
                                  = server_byte_offset_to_position text n))"
proof -
  from assms obtain text_bytes where enc: "utf8_encode text = Inr text_bytes"
    using utf8_encode_encodable by blast
  have prefix: "\<exists>n. byte_length (take k text) = Inr n
      \<and> server_byte_offset_to_position text n = Inr (end_position (take k text))" for k
  proof -
    from utf8_encode_take [OF enc, of k] obtain pre where
      pre: "utf8_encode (take k text) = Inr pre" by blast
    have "byte_length (take k text) = Inr (int (length pre))"
      using pre by (simp add: byte_length_def)
    with server_position_of_prefix [OF enc pre] show ?thesis by blast
  qed
  have A: "position_on_boundary text p \<longrightarrow>
           (\<exists>b. position_to_byte_offset text p = Inr b
                \<and> server_byte_offset_to_position text b = Inr p)"
  proof
    assume "position_on_boundary text p"
    then obtain k where k: "k \<le> length text" "end_position (take k text) = p"
      using boundary_has_offset by blast
    from prefix [of k] position_to_byte_offset_end_position [OF k(1)] k(2)
    show "\<exists>b. position_to_byte_offset text p = Inr b
                \<and> server_byte_offset_to_position text b = Inr p"
      by auto
  qed
  have B: "offset_on_boundary text b \<longrightarrow>
           (\<exists>q. server_byte_offset_to_position text b = Inr q
                \<and> position_to_byte_offset text q = Inr b)"
  proof
    assume "offset_on_boundary text b"
    then have "\<exists>k \<le> length text. Inr b = byte_length (take k text)"
      by (simp only: offset_on_boundary_def in_map_upt)
    then obtain k where k: "k \<le> length text" "byte_length (take k text) = Inr b"
      by metis
    from prefix [of k] position_to_byte_offset_end_position [OF k(1)] k(2)
    show "\<exists>q. server_byte_offset_to_position text b = Inr q
                \<and> position_to_byte_offset text q = Inr b"
      by auto
  qed
  have C: "\<exists>q. server_byte_offset_to_position text off = Inr q"
    using enc by (simp add: server_byte_offset_to_position_def Let_def)
  have D: "\<exists>n. byte_length text = Inr n
               \<and> (n \<le> off \<longrightarrow> server_byte_offset_to_position text off
                                  = server_byte_offset_to_position text n)"
    using enc by (simp add: byte_length_def server_byte_offset_to_position_def Let_def)
  from A B C D show ?thesis by blast
qed

text \<open>
  The text \<open>a\<close>, U+1F600, line feed, \<open>b\<close>, of seven bytes: the position (1, 1), the
  byte offset 5 behind the pair of surrogates, and the offset 100 behind the end.
\<close>

theorem offset_round_trip_witness:
  "encodable [97, 0x1F600, 10, 98]
   \<and> position_on_boundary [97, 0x1F600, 10, 98] \<lparr>line = 1, character = 1\<rparr>
   \<and> position_to_byte_offset [97, 0x1F600, 10, 98] \<lparr>line = 1, character = 1\<rparr> = Inr 7
   \<and> server_byte_offset_to_position [97, 0x1F600, 10, 98] 7
       = Inr \<lparr>line = 1, character = 1\<rparr>
   \<and> offset_on_boundary [97, 0x1F600, 10, 98] 5
   \<and> server_byte_offset_to_position [97, 0x1F600, 10, 98] 5
       = Inr \<lparr>line = 0, character = 3\<rparr>
   \<and> position_to_byte_offset [97, 0x1F600, 10, 98] \<lparr>line = 0, character = 3\<rparr> = Inr 5
   \<and> byte_length [97, 0x1F600, 10, 98] = Inr 7
   \<and> server_byte_offset_to_position [97, 0x1F600, 10, 98] 100
       = server_byte_offset_to_position [97, 0x1F600, 10, 98] 7"
proof -
  let ?T = "[97, 0x1F600, 10, 98] :: str"
  have e: "encodable ?T" by (simp add: encodable_def is_scalar_value_def)
  have enc: "utf8_encode ?T = Inr [97, 240, 159, 152, 128, 10, 98]"
    by (simp add: utf8_encode_char_def)
  have s7: "server_byte_offset_to_position ?T 7 = Inr \<lparr>line = 1, character = 1\<rparr>"
    unfolding server_byte_offset_to_position_def enc
    by (simp add: py_slice_to_def slice_index_def utf8_decode_step_def is_continuation_def
        Let_def)
  have s5: "server_byte_offset_to_position ?T 5 = Inr \<lparr>line = 0, character = 3\<rparr>"
    unfolding server_byte_offset_to_position_def enc
    by (simp add: py_slice_to_def slice_index_def utf8_decode_step_def is_continuation_def
        Let_def)
  have pb: "position_on_boundary ?T \<lparr>line = 1, character = 1\<rparr>"
    by (simp add: position_on_boundary_def utf8_to_utf16_length_def)
  have ob: "offset_on_boundary ?T 5"
    by (simp add: offset_on_boundary_def byte_length_def utf8_encode_char_def)
  have bl: "byte_length ?T = Inr 7" unfolding byte_length_def enc by simp
  have "position_to_offset ?T \<lparr>line = 1, character = 1\<rparr> = 4"
    by (simp add: position_to_offset_def)
  then have "position_to_byte_offset ?T \<lparr>line = 1, character = 1\<rparr> = byte_length ?T"
    by (simp add: position_to_byte_offset_def py_slice_to_def slice_index_def)
  with bl have p7: "position_to_byte_offset ?T \<lparr>line = 1, character = 1\<rparr> = Inr 7"
    by simp
  from offset_round_trip [OF e, of "\<lparr>line = 1, character = 1\<rparr>" 5 100] e pb ob s7 s5 bl p7
  show ?thesis by auto
qed

text \<open>
  The claim as stated, for every position within range, fails between the two code
  units of U+1F600: the position (0, 1) becomes the byte offset 4, which is the
  position (0, 2).
\<close>

theorem mid_surrogate_counterexample:
  "encodable [0x1F600]
   \<and> position_in_range [0x1F600] \<lparr>line = 0, character = 1\<rparr>
   \<and> position_to_byte_offset [0x1F600] \<lparr>line = 0, character = 1\<rparr> = Inr 4
   \<and> server_byte_offset_to_position [0x1F600] 4 = Inr \<lparr>line = 0, character = 2\<rparr>"
proof -
  have enc: "utf8_encode [0x1F600] = Inr [240, 159, 152, 128]"
    by (simp add: utf8_encode_char_def)
  have "server_byte_offset_to_position [0x1F600] 4 = Inr \<lparr>line = 0, character = 2\<rparr>"
    unfolding server_byte_offset_to_position_def enc
    by (simp add: py_slice_to_def slice_index_def utf8_decode_step_def is_continuation_def
        Let_def)
  moreover have "position_to_offset [0x1F600] \<lparr>line = 0, character = 1\<rparr> = 1"
    by (simp add: position_to_offset_def)
  then have "position_to_byte_offset [0x1F600] \<lparr>line = 0, character = 1\<rparr>
               = byte_length [0x1F600]"
    by (simp add: position_to_byte_offset_def py_slice_to_def slice_index_def)
  then have "position_to_byte_offset [0x1F600] \<lparr>line = 0, character = 1\<rparr> = Inr 4"
    unfolding byte_length_def enc by simp
  ultimately show ?thesis
    by (simp add: encodable_def is_scalar_value_def position_in_range_def
        utf8_to_utf16_length_def)
qed

end
